theory Spec2Isabelle
  imports Main
begin

section \<open>Python values of the configuration\<close>

text \<open>
  The matcher of \<^verbatim>\<open>edsnlp/pipelines/generic/generic.py\<close> is configured with
  dictionaries. A Python \<^verbatim>\<open>dict\<close> is modelled as the list of its items in insertion
  order; the keys of a dictionary are pairwise different. A value of the \<^verbatim>\<open>terms\<close>
  and \<^verbatim>\<open>regex\<close> dictionaries is a bare string or a list of strings
  (\<^verbatim>\<open>Union[List[str], str]\<close>).
\<close>

datatype pyval = Str string | Lst "string list"

type_synonym 'v pydict = "(string \<times> 'v) list"

definition dict_keys :: "'v pydict \<Rightarrow> string list" where
  "dict_keys d = map fst d"

definition dict_get :: "'v pydict \<Rightarrow> string \<Rightarrow> 'v option" where
  "dict_get d k = map_of d k"

text \<open>\<^verbatim>\<open>d[k] = v\<close>: an existing key keeps its position, a new key is appended.\<close>

primrec dict_set :: "'v pydict \<Rightarrow> string \<Rightarrow> 'v \<Rightarrow> 'v pydict" where
  "dict_set [] k v = [(k, v)]"
| "dict_set (p # ps) k v = (if fst p = k then (k, v) # ps else p # dict_set ps k v)"

text \<open>
  \<^verbatim>\<open>str.upper()\<close>, on the ASCII letters; every other character is left as it is.
\<close>

definition upper_char :: "char \<Rightarrow> char" where
  "upper_char c =
     (let n = (of_char c :: nat) in if 97 \<le> n \<and> n \<le> 122 then char_of (n - 32) else c)"

definition upper :: "string \<Rightarrow> string" where
  "upper s = map upper_char s"

section \<open>Attribute resolution: \<^verbatim>\<open>GenericMatcher._prepare_attr\<close>\<close>

definition TERM_ATTR :: string where
  "TERM_ATTR = ''term_attr''"

definition DEFAULT_ATTR :: string where
  "DEFAULT_ATTR = ''NORM''"

text \<open>
  The \<^verbatim>\<open>attr\<close> argument is a string or a dictionary of strings. The exceptions are
  \<^verbatim>\<open>ValueError\<close>, raised by the matcher itself, and whatever a collaborator (matching
  engine, tokenizer, vocabulary, document) raises, which propagates unchanged. What
  \<^verbatim>\<open>logger.warning\<close> prints is returned as a list of warnings.
\<close>

datatype attr_arg = AttrStr string | AttrDict "string pydict"

datatype error = ValueError | Raised string

datatype warning = IgnoredAttrKeys "string set" | NoNormaliser | FuzzySlow

text \<open>
  \<^verbatim>\<open>for k in set(regex) | {TERM_ATTR}: if k not in attr: attr[k] = DEFAULT_ATTR\<close>.
  The loop runs over a set; its result as a mapping does not depend on the order, the
  model takes the regex labels in dictionary order and the reserved key last. After
  it every regex label and the reserved key have an entry, so the lookups
  \<^verbatim>\<open>attr[k]\<close> that follow find their key (lemma \<open>resolved_keys_defined\<close> below).
\<close>

fun fill_defaults :: "string list \<Rightarrow> string pydict \<Rightarrow> string pydict" where
  "fill_defaults [] attr = attr"
| "fill_defaults (k # ks) attr =
     fill_defaults ks (if k \<in> set (dict_keys attr) then attr else dict_set attr k DEFAULT_ATTR)"

definition prepare_attr ::
  "attr_arg \<Rightarrow> pyval pydict \<Rightarrow> string list \<Rightarrow> warning list \<times> (error + string pydict)" where
  "prepare_attr attr regex pipe_names =
     (case attr of
        AttrStr a \<Rightarrow>
          ([], Inr (map (\<lambda>k. (k, upper a)) (remdups (dict_keys regex @ [TERM_ATTR]))))
      | AttrDict items \<Rightarrow>
          (let attr1 = map (\<lambda>(k, v). (k, upper v)) items;
               attr2 = fill_defaults (dict_keys regex @ [TERM_ATTR]) attr1;
               diff = set (dict_keys attr2) - set (dict_keys regex) - {TERM_ATTR};
               w1 = (if diff \<noteq> {} then [IgnoredAttrKeys diff] else []);
               vals = map (\<lambda>k. the (dict_get attr2 k)) (dict_keys regex)
           in if set vals - {''NORM'', ''TEXT''} \<noteq> {} then (w1, Inl ValueError)
              else
                (let vals2 = the (dict_get attr2 TERM_ATTR) # vals;
                     w2 = (if ''NORM'' \<in> set vals2 \<and> ''normaliser'' \<notin> set pipe_names
                           then [NoNormaliser] else [])
                 in (w1 @ w2, Inr attr2))))"

section \<open>Coercion of the dictionaries: \<^verbatim>\<open>GenericMatcher._to_dict_of_lists\<close>\<close>

text \<open>
  The dictionaries are objects that the caller and the matcher share, so they live in a
  store: a reference is an index into the list of all dictionary objects, and
  \<^verbatim>\<open>dict()\<close> allocates at the end of the list. \<^verbatim>\<open>d or dict()\<close> takes a fresh
  dictionary when \<^verbatim>\<open>d\<close> is \<^verbatim>\<open>None\<close> or empty. The loop assigns \<^verbatim>\<open>d[k] = [v]\<close>
  into the object it iterates over.
\<close>

type_synonym ref = nat

type_synonym heap = "pyval pydict list"

definition wrap_item :: "ref \<Rightarrow> string \<times> pyval \<Rightarrow> heap \<Rightarrow> heap" where
  "wrap_item r kv h =
     (case snd kv of
        Str s \<Rightarrow> h[r := dict_set (h ! r) (fst kv) (Lst [s])]
      | Lst l \<Rightarrow> h)"

definition to_dict_of_lists :: "heap \<Rightarrow> ref option \<Rightarrow> heap \<times> ref" where
  "to_dict_of_lists h d =
     (let (h1, r) =
            (case d of
               None \<Rightarrow> (h @ [[]], length h)
             | Some r \<Rightarrow> if h ! r = [] then (h @ [[]], length h) else (h, r))
      in (fold (wrap_item r) (h1 ! r) h1, r))"

section \<open>Documents, spans and the collaborators\<close>

text \<open>
  A spaCy label is a hash or a string; \<^verbatim>\<open>vocab.strings\<close> translates between them. A
  span is a half-open token range with a label. A document carries its tokens and its
  entity list \<^verbatim>\<open>doc.ents\<close>. A matching engine is called on the whole document or on
  one sentence of it, and reports matches \<^verbatim>\<open>(match_id, start, end, ...)\<close>, of which
  \<^verbatim>\<open>process\<close> reads the first three components.
\<close>

datatype label = Hash nat | Name string

record span =
  span_start :: int
  span_end :: int
  span_label :: label

record doc =
  tokens :: "string list"
  ents :: "span list"

datatype scope = WholeDoc | Sentence span

type_synonym match = "label \<times> int \<times> int"

datatype kwval = KInt int | KBool bool | KStr string

text \<open>
  The code of the collaborators is not part of the sources: the spaCy pipeline
  \<^verbatim>\<open>nlp\<close> (\<^verbatim>\<open>pipe_names\<close>, \<^verbatim>\<open>tokenizer\<close>, \<^verbatim>\<open>vocab.strings\<close>), the engines
  \<^verbatim>\<open>PhraseMatcher\<close>, \<^verbatim>\<open>FuzzyMatcher\<close> and \<^verbatim>\<open>RegexMatcher\<close> (constructor,
  \<^verbatim>\<open>add\<close>, call), \<^verbatim>\<open>Span.sent\<close>, the setter of \<^verbatim>\<open>Doc.ents\<close>, and the
  iteration order of a Python \<^verbatim>\<open>set\<close>.
  They are parameters of the model, and each call may raise; the setter returns the
  document as the assignment leaves it, and the exception if it raised one. \<open>'m\<close> is the state of the
  term engine, \<open>'r\<close> the state of the regex engine, \<open>'p\<close> a tokenised pattern.
  A \<^verbatim>\<open>set\<close> is iterated in the order of its hash-table slots: \<open>slot\<close> is an arbitrary
  slot number for each span, so that every order of a set can occur.
\<close>

record ('m, 'r, 'p) nlp =
  pipe_names :: "string list"
  tokenizer :: "string \<Rightarrow> error + 'p"
  strings :: "label \<Rightarrow> error + label"
  phrase_matcher :: "string \<Rightarrow> error + 'm"
  fuzzy_matcher :: "string \<Rightarrow> kwval pydict \<Rightarrow> error + 'm"
  matcher_add :: "'m \<Rightarrow> string \<Rightarrow> 'p list \<Rightarrow> error + 'm"
  matcher_call :: "'m \<Rightarrow> doc \<Rightarrow> scope \<Rightarrow> error + match list"
  regex_matcher_new :: "error + 'r"
  regex_matcher_add :: "'r \<Rightarrow> string \<Rightarrow> pyval \<Rightarrow> string \<Rightarrow> error + 'r"
  regex_matcher_call :: "'r \<Rightarrow> doc \<Rightarrow> scope \<Rightarrow> error + span list"
  sent :: "doc \<Rightarrow> span \<Rightarrow> error + span"
  set_ents :: "doc \<Rightarrow> span list \<Rightarrow> doc \<times> error option"
  slot :: "span \<Rightarrow> nat"

text \<open>The fields of a \<^verbatim>\<open>GenericMatcher\<close>; \<open>terms\<close> and \<open>regex\<close> are references.\<close>

record ('m, 'r) generic_matcher =
  on_ents_only :: bool
  terms :: ref
  regex :: ref
  fuzzy :: bool
  filter_matches :: bool
  attr :: "string pydict"
  matcher :: 'm
  regex_matcher :: 'r

section \<open>Construction: \<^verbatim>\<open>__init__\<close>, \<^verbatim>\<open>_create_matcher\<close>, \<^verbatim>\<open>_build_patterns\<close>\<close>

definition create_matcher ::
  "('m, 'r, 'p) nlp \<Rightarrow> bool \<Rightarrow> kwval pydict option \<Rightarrow> string \<Rightarrow> warning list \<times> (error + 'm)" where
  "create_matcher n fz fuzzy_kwargs term_attr =
     (if fz then
        ([FuzzySlow],
         fuzzy_matcher n term_attr
           (case fuzzy_kwargs of
              None \<Rightarrow> [(''min_r2'', KInt 90), (''ignore_case'', KBool True)]
            | Some kw \<Rightarrow> kw))
      else ([], phrase_matcher n term_attr))"

text \<open>\<^verbatim>\<open>list(self.nlp.tokenizer.pipe(expressions))\<close>; a bare string is iterated by character.\<close>

fun tokenizer_pipe :: "('m, 'r, 'p) nlp \<Rightarrow> string list \<Rightarrow> error + 'p list" where
  "tokenizer_pipe n [] = Inr []"
| "tokenizer_pipe n (x # xs) =
     (case tokenizer n x of
        Inl e \<Rightarrow> Inl e
      | Inr p \<Rightarrow> (case tokenizer_pipe n xs of Inl e \<Rightarrow> Inl e | Inr ps \<Rightarrow> Inr (p # ps)))"

definition expressions_of :: "pyval \<Rightarrow> string list" where
  "expressions_of v = (case v of Lst l \<Rightarrow> l | Str s \<Rightarrow> map (\<lambda>c. [c]) s)"

fun add_terms :: "('m, 'r, 'p) nlp \<Rightarrow> 'm \<Rightarrow> pyval pydict \<Rightarrow> error + 'm" where
  "add_terms n m [] = Inr m"
| "add_terms n m ((key, expressions) # rest) =
     (case tokenizer_pipe n (expressions_of expressions) of
        Inl e \<Rightarrow> Inl e
      | Inr patterns \<Rightarrow>
          (case matcher_add n m key patterns of
             Inl e \<Rightarrow> Inl e
           | Inr m' \<Rightarrow> add_terms n m' rest))"

fun add_regex :: "('m, 'r, 'p) nlp \<Rightarrow> 'r \<Rightarrow> string pydict \<Rightarrow> pyval pydict \<Rightarrow> error + 'r" where
  "add_regex n r a [] = Inr r"
| "add_regex n r a ((key, patterns) # rest) =
     (case regex_matcher_add n r key patterns (the (dict_get a key)) of
        Inl e \<Rightarrow> Inl e
      | Inr r' \<Rightarrow> add_regex n r' a rest)"

definition build_patterns ::
  "('m, 'r, 'p) nlp \<Rightarrow> 'm \<Rightarrow> 'r \<Rightarrow> string pydict \<Rightarrow> pyval pydict \<Rightarrow> pyval pydict \<Rightarrow>
     error + ('m \<times> 'r)" where
  "build_patterns n m r a ts rs =
     (case add_terms n m ts of
        Inl e \<Rightarrow> Inl e
      | Inr m' \<Rightarrow> (case add_regex n r a rs of Inl e \<Rightarrow> Inl e | Inr r' \<Rightarrow> Inr (m', r')))"

text \<open>
  \<^verbatim>\<open>__init__\<close> returns the store after construction, the warnings, and the matcher or
  the exception that ended the construction.
\<close>

definition init ::
  "('m, 'r, 'p) nlp \<Rightarrow> heap \<Rightarrow> ref option \<Rightarrow> attr_arg \<Rightarrow> ref option \<Rightarrow> bool \<Rightarrow>
     kwval pydict option \<Rightarrow> bool \<Rightarrow> bool \<Rightarrow>
     heap \<times> warning list \<times> (error + ('m, 'r) generic_matcher)" where
  "init n h terms_arg attr_arg regex_arg fz fuzzy_kwargs filt ents_only =
     (let (h1, t) = to_dict_of_lists h terms_arg;
          (h2, r) = to_dict_of_lists h1 regex_arg;
          (w1, res) = prepare_attr attr_arg (h2 ! r) (pipe_names n)
      in case res of
           Inl e \<Rightarrow> (h2, w1, Inl e)
         | Inr a \<Rightarrow>
             (let (w2, cm) = create_matcher n fz fuzzy_kwargs (the (dict_get a TERM_ATTR))
              in case cm of
                   Inl e \<Rightarrow> (h2, w1 @ w2, Inl e)
                 | Inr m \<Rightarrow>
                     (case regex_matcher_new n of
                        Inl e \<Rightarrow> (h2, w1 @ w2, Inl e)
                      | Inr rm \<Rightarrow>
                          (case build_patterns n m rm a (h2 ! t) (h2 ! r) of
                             Inl e \<Rightarrow> (h2, w1 @ w2, Inl e)
                           | Inr (m', rm') \<Rightarrow>
                               (h2, w1 @ w2,
                                Inr \<lparr>on_ents_only = ents_only, terms = t, regex = r,
                                     fuzzy = fz, filter_matches = filt, attr = a,
                                     matcher = m', regex_matcher = rm'\<rparr>)))))"

section \<open>The overlap filter \<^verbatim>\<open>filter_spans\<close>\<close>

text \<open>
  Modelled from the spec: \<^verbatim>\<open>spacy.util.filter_spans\<close> is library code that the sources
  only call, so the filter follows section 4.4 of the specification. The length of a
  span is its token-range length, end minus start.
\<close>

definition span_len :: "span \<Rightarrow> int" where
  "span_len s = span_end s - span_start s"

text \<open>
  Modelled from the spec: two spans conflict when their half-open token ranges
  \<open>[start, end)\<close> share a token index, that is, when the larger start lies before the
  smaller end.
\<close>

definition overlaps :: "span \<Rightarrow> span \<Rightarrow> bool" where
  "overlaps a b \<longleftrightarrow> max (span_start a) (span_start b) < min (span_end a) (span_end b)"

text \<open>
  Modelled from the spec: step 2 of section 4.4 iterates the sorted list with a set of
  accepted spans, accepts a span if its range shares no token index with the range of an
  accepted span, and rejects it otherwise.
\<close>

fun greedy_accept :: "span list \<Rightarrow> span list \<Rightarrow> span list" where
  "greedy_accept accepted [] = accepted"
| "greedy_accept accepted (s # ss) =
     (if list_ex (\<lambda>a. overlaps a s) accepted then greedy_accept accepted ss
      else greedy_accept (accepted @ [s]) ss)"

text \<open>
  Modelled from the spec: step 1 stable-sorts the spans by length, descending, spans of
  equal length keeping their order in the input; step 3 returns the accepted spans
  sorted by ascending start index. \<open>sort_key\<close> is the stable insertion sort.
\<close>

definition filter_spans :: "span list \<Rightarrow> span list" where
  "filter_spans spans =
     sort_key span_start (greedy_accept [] (sort_key (\<lambda>s. - span_len s) spans))"

section \<open>Matching: \<^verbatim>\<open>GenericMatcher.process\<close> and \<^verbatim>\<open>__call__\<close>\<close>

text \<open>\<^verbatim>\<open>[ent.sent for ent in doc.ents]\<close>\<close>

fun sents_of :: "('m, 'r, 'p) nlp \<Rightarrow> doc \<Rightarrow> span list \<Rightarrow> error + span list" where
  "sents_of n d [] = Inr []"
| "sents_of n d (ent # es) =
     (case sent n d ent of
        Inl e \<Rightarrow> Inl e
      | Inr s \<Rightarrow> (case sents_of n d es of Inl e \<Rightarrow> Inl e | Inr ss \<Rightarrow> Inr (s # ss)))"

text \<open>
  Iterating \<^verbatim>\<open>set(xs)\<close>: each distinct element once, in the order of the slots.
  Two spans are the same element of a set when their token ranges and labels agree.
\<close>

definition set_iter :: "('a \<Rightarrow> nat) \<Rightarrow> 'a list \<Rightarrow> 'a list" where
  "set_iter sl xs = sort_key sl (remdups xs)"

text \<open>
  The loop over the sentences, with the accumulators \<^verbatim>\<open>matches\<close> and
  \<^verbatim>\<open>regex_matches\<close>.
\<close>

fun scan_sents ::
  "('m, 'r, 'p) nlp \<Rightarrow> 'm \<Rightarrow> 'r \<Rightarrow> doc \<Rightarrow> span list \<Rightarrow> match list \<Rightarrow> span list \<Rightarrow>
     error + (match list \<times> span list)" where
  "scan_sents n m r d [] matches regex_matches = Inr (matches, regex_matches)"
| "scan_sents n m r d (s # ss) matches regex_matches =
     (case matcher_call n m d (Sentence s) of
        Inl e \<Rightarrow> Inl e
      | Inr ms \<Rightarrow>
          (case regex_matcher_call n r d (Sentence s) of
             Inl e \<Rightarrow> Inl e
           | Inr rs \<Rightarrow> scan_sents n m r d ss (matches @ ms) (regex_matches @ rs)))"

text \<open>
  The loop that turns the matches into spans; the identifier of an exact match is
  looked up in \<^verbatim>\<open>vocab.strings\<close>, a fuzzy match carries its label.
  \<^verbatim>\<open>Span(doc, start, end, label=match_id)\<close> is the record of its arguments.
\<close>

fun make_spans :: "('m, 'r, 'p) nlp \<Rightarrow> bool \<Rightarrow> match list \<Rightarrow> span list \<Rightarrow> error + span list" where
  "make_spans n fz [] spans = Inr spans"
| "make_spans n fz ((match_id, s, e) # rest) spans =
     (if \<not> fz then
        (case strings n match_id of
           Inl err \<Rightarrow> Inl err
         | Inr l \<Rightarrow>
             make_spans n fz rest (spans @ [\<lparr>span_start = s, span_end = e, span_label = l\<rparr>]))
      else
        make_spans n fz rest
          (spans @ [\<lparr>span_start = s, span_end = e, span_label = match_id\<rparr>]))"

definition find_matches ::
  "('m, 'r, 'p) nlp \<Rightarrow> ('m, 'r) generic_matcher \<Rightarrow> doc \<Rightarrow> error + (match list \<times> span list)" where
  "find_matches n self d =
     (if on_ents_only self then
        (case sents_of n d (ents d) of
           Inl e \<Rightarrow> Inl e
         | Inr sl \<Rightarrow>
             scan_sents n (matcher self) (regex_matcher self) d (set_iter (slot n) sl) [] [])
      else
        (case matcher_call n (matcher self) d WholeDoc of
           Inl e \<Rightarrow> Inl e
         | Inr ms \<Rightarrow>
             (case regex_matcher_call n (regex_matcher self) d WholeDoc of
                Inl e \<Rightarrow> Inl e
              | Inr rs \<Rightarrow> Inr (ms, rs))))"

definition process ::
  "('m, 'r, 'p) nlp \<Rightarrow> ('m, 'r) generic_matcher \<Rightarrow> doc \<Rightarrow> error + span list" where
  "process n self d =
     (case find_matches n self d of
        Inl e \<Rightarrow> Inl e
      | Inr (matches, regex_matches) \<Rightarrow>
          (case make_spans n (fuzzy self) matches [] of
             Inl e \<Rightarrow> Inl e
           | Inr spans \<Rightarrow>
               (let spans' = spans @ regex_matches
                in Inr (if filter_matches self then filter_spans spans' else spans'))))"

text \<open>
  \<^verbatim>\<open>__call__\<close>: the document after the call, and the exception if one was raised.
  \<^verbatim>\<open>doc.ents = spans\<close> runs the setter of the document, which is library code and
  may refuse the spans it is given (overlapping entity spans, for instance); what it
  stores is what it makes of the spans.
\<close>

definition call ::
  "('m, 'r, 'p) nlp \<Rightarrow> ('m, 'r) generic_matcher \<Rightarrow> doc \<Rightarrow> doc \<times> error option" where
  "call n self d =
     (case process n self d of
        Inl e \<Rightarrow> (d, Some e)
      | Inr spans \<Rightarrow> set_ents n d spans)"

section \<open>Notions used to state the properties of the construction\<close>

text \<open>
  The value of a dictionary entry after the coercion, and the coerced dictionary: a
  bare string has become a list of one string.
\<close>

definition as_list :: "pyval \<Rightarrow> pyval" where
  "as_list v = (case v of Str s \<Rightarrow> Lst [s] | Lst l \<Rightarrow> Lst l)"

definition coerced :: "pyval pydict \<Rightarrow> pyval pydict" where
  "coerced d = map (\<lambda>(k, v). (k, as_list v)) d"

text \<open>
  A store is well formed when the keys of each dictionary are pairwise different; an
  argument is \<^verbatim>\<open>None\<close> or a reference to an object of the store.
\<close>

definition heap_ok :: "heap \<Rightarrow> bool" where
  "heap_ok h = list_all (\<lambda>d. distinct (dict_keys d)) h"

definition valid_ref :: "heap \<Rightarrow> ref option \<Rightarrow> bool" where
  "valid_ref h d = (case d of None \<Rightarrow> True | Some r \<Rightarrow> r < length h)"

text \<open>
  The object a field of the matcher is bound to, for an argument \<open>d\<close> of the
  constructor: the caller's own object, or, when the argument is \<^verbatim>\<open>None\<close> or an
  empty dictionary, an empty dictionary that did not exist before the call.
\<close>

definition fresh_empty :: "heap \<Rightarrow> heap \<Rightarrow> ref \<Rightarrow> bool" where
  "fresh_empty h h' r \<longleftrightarrow> length h \<le> r \<and> r < length h' \<and> h' ! r = []"

definition bound_to :: "heap \<Rightarrow> heap \<Rightarrow> ref option \<Rightarrow> ref \<Rightarrow> bool" where
  "bound_to h h' d r =
     (case d of
        None \<Rightarrow> fresh_empty h h' r
      | Some x \<Rightarrow> if h ! x = [] then fresh_empty h h' r else r = x)"

section \<open>Notions used to state the properties of the matching\<close>

text \<open>
  The scopes that \<^verbatim>\<open>process\<close> hands to the engines, in the order of the calls: the
  sentences of the entities, as the set of them is iterated, or the whole document.
\<close>

definition visited ::
  "('m, 'r, 'p) nlp \<Rightarrow> ('m, 'r) generic_matcher \<Rightarrow> doc \<Rightarrow> error + scope list" where
  "visited n self d =
     (if on_ents_only self then
        (case sents_of n d (ents d) of
           Inl e \<Rightarrow> Inl e
         | Inr sl \<Rightarrow> Inr (map Sentence (set_iter (slot n) sl)))
      else Inr [WholeDoc])"

text \<open>
  Both engines return on every scope of a list, with the given lists of matches and
  of spans.
\<close>

definition scanned ::
  "('m, 'r, 'p) nlp \<Rightarrow> ('m, 'r) generic_matcher \<Rightarrow> doc \<Rightarrow> scope list \<Rightarrow>
     match list list \<Rightarrow> span list list \<Rightarrow> bool" where
  "scanned n self d scs mss rss \<longleftrightarrow>
     list_all2 (\<lambda>sc ms. matcher_call n (matcher self) d sc = Inr ms) scs mss \<and>
     list_all2 (\<lambda>sc rs. regex_matcher_call n (regex_matcher self) d sc = Inr rs) scs rss"

text \<open>
  The span that \<^verbatim>\<open>process\<close> makes of a match: the same token range, and the label
  of a fuzzy match or the string that \<^verbatim>\<open>vocab.strings\<close> has for the identifier of
  an exact match.
\<close>

definition span_of_match :: "('m, 'r, 'p) nlp \<Rightarrow> bool \<Rightarrow> match \<Rightarrow> span \<Rightarrow> bool" where
  "span_of_match n fz m t \<longleftrightarrow>
     span_start t = fst (snd m) \<and> span_end t = snd (snd m) \<and>
     (if fz then span_label t = fst m else strings n (fst m) = Inr (span_label t))"

text \<open>Spans that share no token.\<close>

abbreviation apart :: "span \<Rightarrow> span \<Rightarrow> bool" where
  "apart a b \<equiv> \<not> overlaps a b"

section \<open>A small pipeline\<close>

text \<open>
  Collaborators for evaluating the definitions on concrete inputs: the tokenizer makes one
  token of a string, the engines accept every attribute and record what is added to them,
  a sentence is three tokens long, the term engine reports the first two tokens of
  its scope and the regex engine the last two tokens of a sentence, the setter of the
  entities refuses spans that overlap and stores the others by start index, and the
  slots of a set run against the start index.
\<close>

definition toy_nlp ::
  "((string \<times> string list list) list, (string \<times> pyval \<times> string) list, string list) nlp" where
  "toy_nlp =
     \<lparr>pipe_names = [''sentences''],
      tokenizer = (\<lambda>s. Inr [s]),
      strings = (\<lambda>l. case l of
                         Hash h \<Rightarrow> if h = 1 then Inr (Name ''drug'') else Inl (Raised ''KeyError'')
                       | Name s \<Rightarrow> Inr (Hash 1)),
      phrase_matcher = (\<lambda>a. Inr []),
      fuzzy_matcher = (\<lambda>a kw. Inr []),
      matcher_add = (\<lambda>m k ps. Inr (m @ [(k, ps)])),
      matcher_call = (\<lambda>m d sc. case sc of
                         WholeDoc \<Rightarrow> Inr [(Hash 1, 0, 2)]
                       | Sentence s \<Rightarrow> Inr [(Hash 1, span_start s, span_start s + 2)]),
      regex_matcher_new = Inr [],
      regex_matcher_add = (\<lambda>r k ps a. Inr (r @ [(k, ps, a)])),
      regex_matcher_call = (\<lambda>r d sc. case sc of
                         WholeDoc \<Rightarrow> Inr []
                       | Sentence s \<Rightarrow>
                           Inr [\<lparr>span_start = span_end s - 2, span_end = span_end s,
                                 span_label = Name ''dose''\<rparr>]),
      sent = (\<lambda>d e. Inr \<lparr>span_start = 3 * (span_start e div 3),
                          span_end = 3 * (span_start e div 3) + 3, span_label = Hash 0\<rparr>),
      set_ents = (\<lambda>d spans. if sorted_wrt apart spans
                         then (d\<lparr>ents := sort_key span_start spans\<rparr>, None)
                         else (d, Some (Raised ''ValueError''))),
      slot = (\<lambda>s. nat (100 - span_start s))\<rparr>"

text \<open>A matcher over these engines, and a document of two sentences with three entities.\<close>

definition toy_matcher ::
  "bool \<Rightarrow> bool \<Rightarrow>
     ((string \<times> string list list) list, (string \<times> pyval \<times> string) list) generic_matcher" where
  "toy_matcher filt ents_only =
     \<lparr>on_ents_only = ents_only, terms = 0, regex = 1, fuzzy = False, filter_matches = filt,
      attr = [(''term_attr'', ''NORM''), (''dose'', ''TEXT'')],
      matcher = [(''drug'', [[''aspirin'']])],
      regex_matcher = [(''dose'', Lst [''[0-9]+mg''], ''TEXT'')]\<rparr>"

definition toy_doc :: doc where
  "toy_doc =
     \<lparr>tokens = [''Patient'', ''takes'', ''aspirin'', ''daily'', ''dose'', ''50mg''],
      ents = [\<lparr>span_start = 1, span_end = 2, span_label = Name ''verb''\<rparr>,
              \<lparr>span_start = 2, span_end = 3, span_label = Name ''drug''\<rparr>,
              \<lparr>span_start = 5, span_end = 6, span_label = Name ''dose''\<rparr>]\<rparr>"

section \<open>Properties of the attribute resolution\<close>

subsection \<open>Lookups in the resolved attributes\<close>

lemma dict_get_dict_set:
  "dict_get (dict_set d k v) k' = (if k' = k then Some v else dict_get d k')"
  by (induction d) (auto simp: dict_get_def)

lemma dict_get_None_iff: "dict_get d k = None \<longleftrightarrow> k \<notin> set (dict_keys d)"
  by (simp add: dict_get_def dict_keys_def map_of_eq_None_iff)

lemma dict_get_fill_defaults:
  "dict_get (fill_defaults ks a) k =
     (case dict_get a k of
        Some v \<Rightarrow> Some v
      | None \<Rightarrow> if k \<in> set ks then Some DEFAULT_ATTR else None)"
proof (induction ks arbitrary: a)
  case Nil
  then show ?case by (simp split: option.split)
next
  case (Cons x ks)
  show ?case
  proof (cases "x \<in> set (dict_keys a)")
    case True
    then have "dict_get a x \<noteq> None" by (simp add: dict_get_None_iff)
    with True show ?thesis
      by (auto simp: Cons.IH split: option.split)
  next
    case False
    then have "dict_get a x = None" by (simp add: dict_get_None_iff)
    with False show ?thesis
      by (auto simp: Cons.IH dict_get_dict_set split: option.split)
  qed
qed

lemma dict_get_upper_items:
  "dict_get (map (\<lambda>(k, v). (k, upper v)) items) k = map_option upper (dict_get items k)"
  by (induction items) (auto simp: dict_get_def)



lemma upper_char_idem: "upper_char (upper_char c) = upper_char c"
proof (cases "97 \<le> (of_char c :: nat) \<and> (of_char c :: nat) \<le> 122")
  case True
  then have m: "(of_char c - 32 :: nat) mod 256 = of_char c - 32"
    by (intro mod_less) arith
  have u: "upper_char c = char_of (of_char c - 32 :: nat)"
    using True by (simp add: upper_char_def Let_def)
  have "(of_char (upper_char c) :: nat) = of_char c - 32"
    by (simp only: u of_char_of m)
  with True have "\<not> (97 \<le> (of_char (upper_char c) :: nat) \<and> (of_char (upper_char c) :: nat) \<le> 122)"
    by arith
  then show ?thesis
    unfolding upper_char_def [of "upper_char c"] Let_def by (simp only: if_False)
next
  case False
  then have "upper_char c = c"
    unfolding upper_char_def Let_def by (simp only: if_False)
  then show ?thesis by simp
qed


lemma upper_idem: "upper (upper s) = upper s"
  by (simp add: upper_def upper_char_idem)

lemma resolved_value:
  "dict_get (fill_defaults (dict_keys rx @ [TERM_ATTR]) (map (\<lambda>(k, v). (k, upper v)) items)) k =
     (case dict_get items k of
        Some v \<Rightarrow> Some (upper v)
      | None \<Rightarrow> if k \<in> set (dict_keys rx) \<or> k = TERM_ATTR then Some DEFAULT_ATTR else None)"
  by (auto simp: dict_get_fill_defaults dict_get_upper_items split: option.split)

lemma prepare_attr_dict_result:
  assumes "prepare_attr (AttrDict items) rx pn = (w, Inr am)"
  shows "am = fill_defaults (dict_keys rx @ [TERM_ATTR]) (map (\<lambda>(k, v). (k, upper v)) items)"
  using assms by (auto simp: prepare_attr_def Let_def split: if_splits)

lemma prepare_attr_raises:
  assumes "k \<in> set (dict_keys rx)" "dict_get items k = Some v" "upper v \<notin> {''NORM'', ''TEXT''}"
  shows "snd (prepare_attr (AttrDict items) rx pn) = Inl ValueError"
proof -
  let ?a2 = "fill_defaults (dict_keys rx @ [TERM_ATTR]) (map (\<lambda>(k, v). (k, upper v)) items)"
  have "dict_get ?a2 k = Some (upper v)"
    using assms(2) by (simp add: resolved_value)
  then have "upper v \<in> set (map (\<lambda>k. the (dict_get ?a2 k)) (dict_keys rx))"
    using assms(1) by force
  with assms(3) have "set (map (\<lambda>k. the (dict_get ?a2 k)) (dict_keys rx)) - {''NORM'', ''TEXT''} \<noteq> {}"
    by blast
  then show ?thesis
    by (simp add: prepare_attr_def Let_def)
qed

text \<open>No lookup of a regex label or of the reserved key in the resolved attributes fails.\<close>

lemma dict_get_scalar:
  "dict_get (map (\<lambda>k. (k, v)) ks) k = (if k \<in> set ks then Some v else None)"
  by (induction ks) (auto simp: dict_get_def)

lemma resolved_keys_defined:
  assumes "prepare_attr a rx pn = (w, Inr am)"
    and "k \<in> set (dict_keys rx) \<or> k = TERM_ATTR"
  shows "dict_get am k \<noteq> None"
proof (cases a)
  case (AttrStr v)
  with assms(1) have "am = map (\<lambda>k. (k, upper v)) (remdups (dict_keys rx @ [TERM_ATTR]))"
    by (auto simp: prepare_attr_def)
  with assms(2) show ?thesis
    by (auto simp: dict_get_scalar)
next
  case (AttrDict items)
  with assms(1) have "am = fill_defaults (dict_keys rx @ [TERM_ATTR]) (map (\<lambda>(k, v). (k, upper v)) items)"
    by (simp add: prepare_attr_dict_result)
  with assms(2) show ?thesis
    by (auto simp: resolved_value split: option.splits)
qed

lemma init_prepare_attr_error:
  assumes "to_dict_of_lists h t_arg = (h1, t)" "to_dict_of_lists h1 r_arg = (h2, r)"
    "snd (prepare_attr a (h2 ! r) (pipe_names n)) = Inl e"
  shows "snd (snd (init n h t_arg a r_arg fz kw filt eo)) = Inl e"
  using assms by (auto simp: init_def Let_def split: prod.splits sum.splits)


subsection \<open>Defaults\<close>

text \<open>
  Claim C7. When \<^verbatim>\<open>attr\<close> is a dictionary and the resolution returns, every regex
  label and the reserved key \<^verbatim>\<open>term_attr\<close> that is not a key of the dictionary is
  mapped to the default attribute, which is \<^verbatim>\<open>"NORM"\<close>, the normalised text.
\<close>

theorem absent_keys_resolve_to_default:
  assumes "prepare_attr (AttrDict items) rx pn = (w, Inr am)"
    and "k \<in> set (dict_keys rx) \<or> k = TERM_ATTR"
    and "k \<notin> set (dict_keys items)"
  shows "dict_get am k = Some DEFAULT_ATTR \<and> DEFAULT_ATTR = ''NORM''"
proof -
  from assms(3) have "dict_get items k = None"
    by (simp add: dict_get_None_iff)
  with assms(2) show ?thesis
    unfolding prepare_attr_dict_result [OF assms(1)]
    by (simp add: resolved_value DEFAULT_ATTR_def)
qed

text \<open>The label \<^verbatim>\<open>date\<close> has no entry in \<^verbatim>\<open>attr\<close> and gets the default.\<close>

theorem absent_keys_resolve_to_default_witness:
  "prepare_attr (AttrDict [(''dose'', ''text'')])
     [(''dose'', Lst [''[0-9]+mg'']), (''date'', Lst [''today''])] [] =
     ([NoNormaliser], Inr [(''dose'', ''TEXT''), (''date'', ''NORM''), (''term_attr'', ''NORM'')]) \<and>
   dict_get [(''dose'', ''TEXT''), (''date'', ''NORM''), (''term_attr'', ''NORM'')] ''date'' =
     Some ''NORM''"
proof -
  have h: "prepare_attr (AttrDict [(''dose'', ''text'')])
     [(''dose'', Lst [''[0-9]+mg'']), (''date'', Lst [''today''])] [] =
     ([NoNormaliser], Inr [(''dose'', ''TEXT''), (''date'', ''NORM''), (''term_attr'', ''NORM'')])"
    by code_simp
  have k: "''date'' \<in> set (dict_keys [(''dose'', Lst [''[0-9]+mg'']), (''date'', Lst [''today''])])
      \<or> ''date'' = TERM_ATTR"
    by (simp add: dict_keys_def)
  have a: "''date'' \<notin> set (dict_keys [(''dose'', ''text'')])"
    by (simp add: dict_keys_def)
  show ?thesis
    using absent_keys_resolve_to_default [OF h k a] h by (simp add: DEFAULT_ATTR_def)
qed

subsection \<open>Unsupported attributes\<close>

text \<open>
  Claim C1, as amended. When \<^verbatim>\<open>attr\<close> is a dictionary and the value it gives for a
  regex label is, once uppercased, neither \<^verbatim>\<open>"NORM"\<close> nor \<^verbatim>\<open>"TEXT"\<close>, the
  resolution raises \<^verbatim>\<open>ValueError\<close> and so does the construction, whatever the
  collaborators do: no engine has been created, no pattern added and no matcher is
  built. (The regex labels are the keys of the regex dictionary after its coercion.)
\<close>

theorem unsupported_regex_attr_raises:
  assumes "to_dict_of_lists h t_arg = (h1, t)" and "to_dict_of_lists h1 r_arg = (h2, r)"
    and "k \<in> set (dict_keys (h2 ! r))"
    and "dict_get items k = Some v" and "upper v \<notin> {''NORM'', ''TEXT''}"
  shows "snd (prepare_attr (AttrDict items) (h2 ! r) (pipe_names n)) = Inl ValueError \<and>
         snd (snd (init n h t_arg (AttrDict items) r_arg fz kw filt eo)) = Inl ValueError"
  using prepare_attr_raises [OF assms(3-5)] init_prepare_attr_error [OF assms(1,2)]
  by blast

text \<open>The attribute \<^verbatim>\<open>lower\<close> for the regex label \<^verbatim>\<open>dose\<close> ends the construction.\<close>

theorem unsupported_regex_attr_raises_witness:
  "snd (snd (init toy_nlp [[(''drug'', Str ''aspirin'')], [(''dose'', Lst [''[0-9]+mg''])]]
       (Some 0) (AttrDict [(''dose'', ''lower'')]) (Some 1) False None True False)) =
     Inl ValueError"
proof -
  have a: "to_dict_of_lists [[(''drug'', Str ''aspirin'')], [(''dose'', Lst [''[0-9]+mg''])]] (Some 0) =
      ([[(''drug'', Lst [''aspirin''])], [(''dose'', Lst [''[0-9]+mg''])]], 0)"
    by code_simp
  have b: "to_dict_of_lists [[(''drug'', Lst [''aspirin''])], [(''dose'', Lst [''[0-9]+mg''])]] (Some 1) =
      ([[(''drug'', Lst [''aspirin''])], [(''dose'', Lst [''[0-9]+mg''])]], 1)"
    by code_simp
  have c: "''dose'' \<in> set (dict_keys ([[(''drug'', Lst [''aspirin''])], [(''dose'', Lst [''[0-9]+mg''])]] ! 1))"
    by (simp add: dict_keys_def)
  have d: "dict_get [(''dose'', ''lower'')] ''dose'' = Some ''lower''"
    by (simp add: dict_get_def)
  have e: "upper ''lower'' \<notin> {''NORM'', ''TEXT''}"
    by code_simp
  show ?thesis
    using unsupported_regex_attr_raises [OF a b c d e] by blast
qed

text \<open>
  Claim C1 as stated fails. In the first construction \<^verbatim>\<open>attr\<close> is a dictionary
  that gives \<^verbatim>\<open>lower\<close> for the reserved key \<^verbatim>\<open>term_attr\<close>, and there is no regex
  label, so no value is checked; in the second \<^verbatim>\<open>attr\<close> is the string
  \<^verbatim>\<open>lower\<close>, which is returned before the checks. With engines that accept the
  attribute \<^verbatim>\<open>LOWER\<close>, both constructions build a matcher.
\<close>

theorem unchecked_attr_counterexample:
  "snd (snd (init toy_nlp [[(''drug'', Str ''aspirin'')]] (Some 0)
       (AttrDict [(''term_attr'', ''lower'')]) None False None True False)) =
     Inr \<lparr>on_ents_only = False, terms = 0, regex = 1, fuzzy = False, filter_matches = True,
          attr = [(''term_attr'', ''LOWER'')], matcher = [(''drug'', [[''aspirin'']])],
          regex_matcher = []\<rparr> \<and>
   snd (snd (init toy_nlp [[(''drug'', Str ''aspirin'')]] (Some 0)
       (AttrStr ''lower'') None False None True False)) =
     Inr \<lparr>on_ents_only = False, terms = 0, regex = 1, fuzzy = False, filter_matches = True,
          attr = [(''term_attr'', ''LOWER'')], matcher = [(''drug'', [[''aspirin'']])],
          regex_matcher = []\<rparr>"
  by code_simp

subsection \<open>Upper case\<close>

text \<open>
  Claim C8, as amended. When \<^verbatim>\<open>attr\<close> is a dictionary, its values are uppercased
  before the defaults are filled in, the unknown keys detected and the values checked,
  so a dictionary and the same dictionary with uppercased values resolve alike
  (warnings, exception and result). Its keys are not changed: the resolved attribute of
  a key is the uppercased value stored under exactly that key, or the default for a
  regex label or \<^verbatim>\<open>term_attr\<close> with no entry under exactly that key.
\<close>

theorem attr_values_uppercased_keys_verbatim:
  "prepare_attr (AttrDict (map (\<lambda>(k, v). (k, upper v)) items)) rx pn =
     prepare_attr (AttrDict items) rx pn \<and>
   (\<forall>w am k. prepare_attr (AttrDict items) rx pn = (w, Inr am) \<longrightarrow>
      dict_get am k =
        (case dict_get items k of
           Some v \<Rightarrow> Some (upper v)
         | None \<Rightarrow> if k \<in> set (dict_keys rx) \<or> k = TERM_ATTR then Some DEFAULT_ATTR else None))"
proof -
  have "map (\<lambda>(k, v). (k, upper v)) (map (\<lambda>(k, v). (k, upper v)) items) =
        map (\<lambda>(k, v). (k, upper v)) items"
    by (induction items) (auto simp: upper_idem)
  then have "prepare_attr (AttrDict (map (\<lambda>(k, v). (k, upper v)) items)) rx pn =
     prepare_attr (AttrDict items) rx pn"
    by (simp only: prepare_attr_def attr_arg.case)
  moreover have "dict_get am k =
        (case dict_get items k of
           Some v \<Rightarrow> Some (upper v)
         | None \<Rightarrow> if k \<in> set (dict_keys rx) \<or> k = TERM_ATTR then Some DEFAULT_ATTR else None)"
    if "prepare_attr (AttrDict items) rx pn = (w, Inr am)" for w am k
    unfolding prepare_attr_dict_result [OF that] by (rule resolved_value)
  ultimately show ?thesis by blast
qed

text \<open>The values \<^verbatim>\<open>text\<close> and \<^verbatim>\<open>TEXT\<close> for the label \<^verbatim>\<open>dose\<close>.\<close>

theorem attr_values_uppercased_keys_verbatim_witness:
  "prepare_attr (AttrDict [(''dose'', ''TEXT'')]) [(''dose'', Lst [''[0-9]+mg''])] [] =
     prepare_attr (AttrDict [(''dose'', ''text'')]) [(''dose'', Lst [''[0-9]+mg''])] [] \<and>
   prepare_attr (AttrDict [(''dose'', ''text'')]) [(''dose'', Lst [''[0-9]+mg''])] [] =
     ([NoNormaliser], Inr [(''dose'', ''TEXT''), (''term_attr'', ''NORM'')]) \<and>
   dict_get [(''dose'', ''TEXT''), (''term_attr'', ''NORM'')] ''dose'' = Some ''TEXT''"
proof -
  have h: "prepare_attr (AttrDict [(''dose'', ''text'')]) [(''dose'', Lst [''[0-9]+mg''])] [] =
     ([NoNormaliser], Inr [(''dose'', ''TEXT''), (''term_attr'', ''NORM'')])"
    by code_simp
  have u: "map (\<lambda>(k, v). (k, upper v)) [(''dose'', ''text'')] = [(''dose'', ''TEXT'')]"
    by code_simp
  have g: "dict_get [(''dose'', ''text'')] ''dose'' = Some ''text''"
    by (simp add: dict_get_def)
  have v: "upper ''text'' = ''TEXT''"
    by code_simp
  show ?thesis
    using attr_values_uppercased_keys_verbatim
      [of "[(''dose'', ''text'')]" "[(''dose'', Lst [''[0-9]+mg''])]" "[]"] h u g v
    by (metis option.simps(5))
qed

text \<open>
  Claim C8 as stated fails for the keys: the key \<^verbatim>\<open>dose\<close> is not the regex label
  \<^verbatim>\<open>DOSE\<close>, which gets the default, while the key \<^verbatim>\<open>DOSE\<close> sets its attribute.
\<close>

theorem attr_keys_case_counterexample:
  "snd (prepare_attr (AttrDict [(''dose'', ''TEXT'')]) [(''DOSE'', Lst [''[0-9]+mg''])] []) =
     Inr [(''dose'', ''TEXT''), (''DOSE'', ''NORM''), (''term_attr'', ''NORM'')] \<and>
   snd (prepare_attr (AttrDict [(''DOSE'', ''TEXT'')]) [(''DOSE'', Lst [''[0-9]+mg''])] []) =
     Inr [(''DOSE'', ''TEXT''), (''term_attr'', ''NORM'')]"
  by code_simp

section \<open>Properties of the construction\<close>

subsection \<open>The coercion in the store\<close>

lemma dict_keys_coerced: "dict_keys (coerced d) = dict_keys d"
  by (induction d) (auto simp: dict_keys_def coerced_def)

lemma coerced_idem: "coerced (coerced d) = coerced d"
  by (induction d) (auto simp: coerced_def as_list_def split: pyval.splits)

lemma coerced_eq_Nil: "coerced d = [] \<longleftrightarrow> d = []"
  by (simp add: coerced_def)

lemma dict_set_middle:
  "k \<notin> fst ` set ds \<Longrightarrow> dict_set (ds @ (k, v) # rest) k x = ds @ (k, x) # rest"
  by (induction ds) auto

lemma fold_wrap_item:
  assumes "r < length h" and "h ! r = ds @ its" and "distinct (map fst (ds @ its))"
  shows "fold (wrap_item r) its h = h[r := ds @ coerced its]"
  using assms
proof (induction its arbitrary: ds h)
  case Nil
  then have "h[r := ds] = h" by (metis append_Nil2 list_update_id)
  then show ?case by (simp add: coerced_def)
next
  case (Cons kv its)
  obtain k v where kv: "kv = (k, v)" by (cases kv)
  have notin: "k \<notin> fst ` set ds"
    using Cons.prems(3) by (auto simp: kv)
  let ?h' = "wrap_item r kv h"
  have h': "?h' = h[r := (ds @ [(k, as_list v)]) @ its]"
  proof (cases v)
    case (Str s)
    then show ?thesis
      using Cons.prems(2) notin
      by (simp add: wrap_item_def kv dict_set_middle as_list_def)
  next
    case (Lst l)
    have "h[r := h ! r] = h" by (rule list_update_id)
    with Lst show ?thesis
      using Cons.prems(2) by (simp add: wrap_item_def kv as_list_def)
  qed
  have len: "r < length ?h'" using Cons.prems(1) by (simp add: h')
  have at: "?h' ! r = (ds @ [(k, as_list v)]) @ its"
    using Cons.prems(1) by (simp add: h')
  have dist: "distinct (map fst ((ds @ [(k, as_list v)]) @ its))"
    using Cons.prems(3) by (simp add: kv)
  have "fold (wrap_item r) (kv # its) h = fold (wrap_item r) its ?h'" by simp
  also have "\<dots> = ?h'[r := (ds @ [(k, as_list v)]) @ coerced its]"
    by (rule Cons.IH [OF len at dist])
  also have "\<dots> = h[r := ds @ coerced (kv # its)]"
    unfolding h' by (simp add: kv coerced_def)
  finally show ?case .
qed

lemma to_dict_of_lists_Some:
  assumes "r < length h" and "h ! r \<noteq> []" and "distinct (dict_keys (h ! r))"
  shows "to_dict_of_lists h (Some r) = (h[r := coerced (h ! r)], r)"
  using assms fold_wrap_item [of r h "[]" "h ! r"]
  by (simp add: to_dict_of_lists_def dict_keys_def)

lemma to_dict_of_lists_fresh:
  assumes "d = None \<or> (\<exists>r. d = Some r \<and> h ! r = [])"
  shows "to_dict_of_lists h d = (h @ [[]], length h)"
  using assms by (auto simp: to_dict_of_lists_def)

text \<open>The effect of one coercion on the store and the reference it returns.\<close>

lemma to_dict_of_lists_effect:
  assumes "heap_ok h" and "valid_ref h d" and "to_dict_of_lists h d = (h', r)"
  shows "heap_ok h' \<and> length h \<le> length h' \<and>
         (\<forall>x<length h. h' ! x = (if d = Some x then coerced (h ! x) else h ! x)) \<and>
         (case d of
            None \<Rightarrow> r = length h \<and> h' = h @ [[]]
          | Some x \<Rightarrow> if h ! x = [] then r = length h \<and> h' = h @ [[]] else r = x)"
proof (cases "d = None \<or> (\<exists>x. d = Some x \<and> h ! x = [])")
  case True
  then have "to_dict_of_lists h d = (h @ [[]], length h)"
    by (rule to_dict_of_lists_fresh)
  with assms(3) have eq: "h' = h @ [[]]" "r = length h" by simp_all
  show ?thesis
    using True assms(1) by (auto simp: eq heap_ok_def nth_append dict_keys_def coerced_def)
next
  case False
  then obtain x where x: "d = Some x" "h ! x \<noteq> []" by auto
  from assms(2) x have lt: "x < length h" by (simp add: valid_ref_def)
  from assms(1) lt have dist: "distinct (dict_keys (h ! x))"
    by (simp add: heap_ok_def list_all_length)
  from to_dict_of_lists_Some [OF lt x(2) dist] assms(3) x
  have eq: "h' = h[x := coerced (h ! x)]" "r = x" by auto
  have "heap_ok h'"
    using assms(1) dist lt unfolding eq heap_ok_def list_all_length
    by (simp add: nth_list_update dict_keys_coerced)
  then show ?thesis
    using x lt by (auto simp: eq nth_list_update)
qed


lemma init_heap:
  assumes "to_dict_of_lists h t_arg = (h1, t)" and "to_dict_of_lists h1 r_arg = (h2, r)"
  shows "fst (init n h t_arg a r_arg fz kw filt eo) = h2"
    and "snd (snd (init n h t_arg a r_arg fz kw filt eo)) = Inr self \<Longrightarrow>
           terms self = t \<and> regex self = r"
  using assms by (auto simp: init_def Let_def split: prod.splits sum.splits)

lemma coerced_changes:
  assumes "(k, Str s) \<in> set d"
  shows "coerced d \<noteq> d"
proof
  assume "coerced d = d"
  then have "map (\<lambda>(k, v). (k, as_list v)) d = map (\<lambda>kv. kv) d"
    by (simp add: coerced_def)
  then have "(\<lambda>(k, v). (k, as_list v)) (k, Str s) = (k, Str s)"
    using assms by (metis (no_types, lifting) map_eq_conv)
  then show False by (simp add: as_list_def)
qed

subsection \<open>The caller's dictionaries after the construction\<close>

text \<open>
  Claim C10. The construction writes into the dictionary objects that the caller passed
  as \<^verbatim>\<open>terms\<close> and \<^verbatim>\<open>regex\<close>: after it (also when it ends with an exception), each
  of these objects holds its coerced content, every bare string replaced by the list of
  that string, and every other object of the store is as before; an object that held a
  bare string has therefore changed. The fields \<^verbatim>\<open>terms\<close> and \<^verbatim>\<open>regex\<close> of the
  matcher refer to the caller's own objects, except that for \<^verbatim>\<open>None\<close> (and for an
  empty dictionary) they refer to a fresh empty dictionary.
\<close>

theorem construction_coerces_callers_dictionaries:
  assumes "heap_ok h" and "valid_ref h t_arg" and "valid_ref h r_arg"
    and "init n h t_arg a r_arg fz kw filt eo = (h', ws, res)"
  shows "(\<forall>x<length h.
            h' ! x = (if t_arg = Some x \<or> r_arg = Some x then coerced (h ! x) else h ! x)) \<and>
         (\<forall>x<length h. \<forall>k s.
            (t_arg = Some x \<or> r_arg = Some x) \<and> (k, Str s) \<in> set (h ! x) \<longrightarrow> h' ! x \<noteq> h ! x) \<and>
         (\<forall>self. res = Inr self \<longrightarrow>
            bound_to h h' t_arg (terms self) \<and> bound_to h h' r_arg (regex self))"
proof -
  obtain h1 t where c1: "to_dict_of_lists h t_arg = (h1, t)" by (cases "to_dict_of_lists h t_arg")
  obtain h2 r where c2: "to_dict_of_lists h1 r_arg = (h2, r)" by (cases "to_dict_of_lists h1 r_arg")
  note e1 = to_dict_of_lists_effect [OF assms(1,2) c1]
  from e1 have ok1: "heap_ok h1" and len1: "length h \<le> length h1" by simp_all
  from assms(3) len1 have v2: "valid_ref h1 r_arg"
    by (auto simp: valid_ref_def split: option.splits)
  note e2 = to_dict_of_lists_effect [OF ok1 v2 c2]
  from e2 have len2: "length h1 \<le> length h2" by simp
  have heap: "h' = h2"
    using init_heap(1) [OF c1 c2, of n a fz kw filt eo] assms(4) by simp
  have at: "h2 ! x = (if t_arg = Some x \<or> r_arg = Some x then coerced (h ! x) else h ! x)"
    if "x < length h" for x
  proof -
    from that len1 have x1: "x < length h1" by simp
    have a1: "h1 ! x = (if t_arg = Some x then coerced (h ! x) else h ! x)"
      using e1 that by blast
    have a2: "h2 ! x = (if r_arg = Some x then coerced (h1 ! x) else h1 ! x)"
      using e2 x1 by blast
    show ?thesis by (simp add: a1 a2 coerced_idem)
  qed
  have changed: "h2 ! x \<noteq> h ! x"
    if "x < length h" "t_arg = Some x \<or> r_arg = Some x" "(k, Str s) \<in> set (h ! x)" for x k s
    using at [OF that(1)] that(2) coerced_changes [OF that(3)] by auto
  have bt: "bound_to h h2 t_arg t"
  proof (cases "t_arg = None \<or> (\<exists>x. t_arg = Some x \<and> h ! x = [])")
    case True
    with e1 have t: "t = length h" "h1 = h @ [[]]"
      by (auto split: option.splits if_splits)
    then have t1: "t < length h1" "h1 ! t = []" by simp_all
    have "h2 ! t = []"
    proof (cases "r_arg = Some t")
      case True
      with assms(3) show ?thesis by (simp add: valid_ref_def t)
    next
      case False
      then show ?thesis using e2 t1 by auto
    qed
    with True t len2 show ?thesis
      by (auto simp: bound_to_def fresh_empty_def split: option.splits)
  next
    case False
    with e1 show ?thesis
      by (auto simp: bound_to_def split: option.splits if_splits)
  qed
  have br: "bound_to h h2 r_arg r"
  proof (cases "r_arg = None \<or> (\<exists>x. r_arg = Some x \<and> h1 ! x = [])")
    case True
    with e2 have r: "r = length h1" "h2 = h1 @ [[]]"
      by (auto split: option.splits if_splits)
    have "\<And>x. r_arg = Some x \<Longrightarrow> (h1 ! x = []) = (h ! x = [])"
      using e1 assms(3) by (auto simp: valid_ref_def coerced_eq_Nil)
    with True r len1 show ?thesis
      by (auto simp: bound_to_def fresh_empty_def split: option.splits)
  next
    case False
    then obtain x where x: "r_arg = Some x" "h1 ! x \<noteq> []" by auto
    with assms(3) have "x < length h" by (simp add: valid_ref_def)
    with e1 x have "h ! x \<noteq> []" by (auto simp: coerced_eq_Nil split: if_splits)
    with e2 x show ?thesis by (auto simp: bound_to_def)
  qed
  have "terms self = t \<and> regex self = r" if "res = Inr self" for self
    using init_heap(2) [OF c1 c2, of n a fz kw filt eo self] assms(4) that by simp
  with at changed bt br show ?thesis
    unfolding heap by blast
qed

text \<open>The caller's \<^verbatim>\<open>terms\<close> object, at reference 0, before and after.\<close>

theorem construction_coerces_callers_dictionaries_witness:
  "init toy_nlp [[(''drug'', Str ''aspirin''), (''device'', Lst [''stent'', ''valve''])]]
       (Some 0) (AttrStr ''norm'') None False None True False =
     ([[(''drug'', Lst [''aspirin'']), (''device'', Lst [''stent'', ''valve''])], []], [],
      Inr \<lparr>on_ents_only = False, terms = 0, regex = 1, fuzzy = False, filter_matches = True,
           attr = [(''term_attr'', ''NORM'')],
           matcher = [(''drug'', [[''aspirin'']]), (''device'', [[''stent''], [''valve'']])],
           regex_matcher = []\<rparr>) \<and>
   coerced [(''drug'', Str ''aspirin''), (''device'', Lst [''stent'', ''valve''])] =
     [(''drug'', Lst [''aspirin'']), (''device'', Lst [''stent'', ''valve''])]"
proof -
  let ?h = "[[(''drug'', Str ''aspirin''), (''device'', Lst [''stent'', ''valve''])]]"
  have ok: "heap_ok ?h" by (simp add: heap_ok_def dict_keys_def)
  have vt: "valid_ref ?h (Some 0)" by (simp add: valid_ref_def)
  have vr: "valid_ref ?h None" by (simp add: valid_ref_def)
  have run: "init toy_nlp ?h (Some 0) (AttrStr ''norm'') None False None True False =
     ([[(''drug'', Lst [''aspirin'']), (''device'', Lst [''stent'', ''valve''])], []], [],
      Inr \<lparr>on_ents_only = False, terms = 0, regex = 1, fuzzy = False, filter_matches = True,
           attr = [(''term_attr'', ''NORM'')],
           matcher = [(''drug'', [[''aspirin'']]), (''device'', [[''stent''], [''valve'']])],
           regex_matcher = []\<rparr>)"
    by code_simp
  from construction_coerces_callers_dictionaries [OF ok vt vr run]
  have "[[(''drug'', Lst [''aspirin'']), (''device'', Lst [''stent'', ''valve''])], []] ! 0 = coerced (?h ! 0)"
    by simp
  with run show ?thesis by simp
qed

section \<open>Properties of the matching\<close>

subsection \<open>When the loops return\<close>

lemma sents_of_Inr:
  "sents_of n d es = Inr sl \<longleftrightarrow> list_all2 (\<lambda>e s. sent n d e = Inr s) es sl"
proof (induction es arbitrary: sl)
  case Nil
  then show ?case by auto
next
  case (Cons e es)
  show ?case
    by (cases "sent n d e"; cases "sents_of n d es")
       (auto simp: list_all2_Cons1 Cons.IH [symmetric])
qed

lemma scan_sents_Inr:
  "scan_sents n m r d ss ms0 rs0 = Inr (ms, rs) \<longleftrightarrow>
     (\<exists>mss rss.
        list_all2 (\<lambda>s x. matcher_call n m d (Sentence s) = Inr x) ss mss \<and>
        list_all2 (\<lambda>s x. regex_matcher_call n r d (Sentence s) = Inr x) ss rss \<and>
        ms = ms0 @ concat mss \<and> rs = rs0 @ concat rss)"
  (is "?L ss ms0 rs0 \<longleftrightarrow> (\<exists>mss rss. ?R ss ms0 rs0 mss rss)")
proof (induction ss arbitrary: ms0 rs0)
  case Nil
  then show ?case by auto
next
  case (Cons s ss)
  show ?case
  proof (cases "matcher_call n m d (Sentence s)")
    case (Inl e)
    then show ?thesis by (simp add: list_all2_Cons1)
  next
    case m: (Inr x)
    show ?thesis
    proof (cases "regex_matcher_call n r d (Sentence s)")
      case (Inl e)
      then show ?thesis using m by (simp add: list_all2_Cons1)
    next
      case (Inr y)
      have step: "?L (s # ss) ms0 rs0 \<longleftrightarrow> ?L ss (ms0 @ x) (rs0 @ y)"
        using m Inr by simp
      show ?thesis
      proof
        assume "?L (s # ss) ms0 rs0"
        then obtain mss rss where "?R ss (ms0 @ x) (rs0 @ y) mss rss"
          unfolding step Cons.IH by blast
        then have "?R (s # ss) ms0 rs0 (x # mss) (y # rss)"
          using m Inr by simp
        then show "\<exists>mss rss. ?R (s # ss) ms0 rs0 mss rss" by blast
      next
        assume "\<exists>mss rss. ?R (s # ss) ms0 rs0 mss rss"
        then obtain mss rss where R: "?R (s # ss) ms0 rs0 mss rss" by blast
        then obtain x' mss' where mss: "mss = x' # mss'"
          by (auto simp: list_all2_Cons1)
        from R obtain y' rss' where rss: "rss = y' # rss'"
          by (auto simp: list_all2_Cons1)
        from R m Inr have "x' = x" "y' = y" by (simp_all add: mss rss)
        with R have "?R ss (ms0 @ x) (rs0 @ y) mss' rss'"
          by (simp add: mss rss)
        then show "?L (s # ss) ms0 rs0"
          unfolding step Cons.IH by blast
      qed
    qed
  qed
qed

lemma span_of_match_fuzzy:
  "span_of_match n True (l, s, e) t \<longleftrightarrow>
     t = \<lparr>span_start = s, span_end = e, span_label = l\<rparr>"
  by (cases t) (auto simp: span_of_match_def)

lemma span_of_match_exact:
  "span_of_match n False (l, s, e) t \<longleftrightarrow>
     (\<exists>l'. strings n l = Inr l' \<and> t = \<lparr>span_start = s, span_end = e, span_label = l'\<rparr>)"
  by (cases t) (auto simp: span_of_match_def)

lemma make_spans_Inr:
  "make_spans n fz ms acc = Inr out \<longleftrightarrow>
     (\<exists>ts. list_all2 (span_of_match n fz) ms ts \<and> out = acc @ ts)"
proof (induction ms arbitrary: acc)
  case Nil
  then show ?case by auto
next
  case (Cons m ms)
  obtain l s e where m: "m = (l, s, e)" by (cases m)
  show ?case
  proof (cases "fz \<or> (\<exists>l'. strings n l = Inr l')")
    case False
    then obtain err where "\<not> fz" "strings n l = Inl err"
      by (cases "strings n l") auto
    then show ?thesis
      by (simp add: m list_all2_Cons1 span_of_match_exact)
  next
    case True
    then obtain l' where l': "if fz then l' = l else strings n l = Inr l'"
      by (cases fz) auto
    let ?t = "\<lparr>span_start = s, span_end = e, span_label = l'\<rparr>"
    have one: "span_of_match n fz (l, s, e) t \<longleftrightarrow> t = ?t" for t
      using l' by (cases fz) (auto simp: span_of_match_fuzzy span_of_match_exact)
    have step: "make_spans n fz (m # ms) acc = make_spans n fz ms (acc @ [?t])"
      using l' by (cases fz) (simp_all add: m)
    show ?thesis
    proof
      assume "make_spans n fz (m # ms) acc = Inr out"
      then obtain ts where "list_all2 (span_of_match n fz) ms ts" "out = (acc @ [?t]) @ ts"
        unfolding step Cons.IH by blast
      then have "list_all2 (span_of_match n fz) (m # ms) (?t # ts) \<and> out = acc @ ?t # ts"
        by (simp add: m one)
      then show "\<exists>ts. list_all2 (span_of_match n fz) (m # ms) ts \<and> out = acc @ ts"
        by blast
    next
      assume "\<exists>ts. list_all2 (span_of_match n fz) (m # ms) ts \<and> out = acc @ ts"
      then obtain ts where ts: "list_all2 (span_of_match n fz) (m # ms) ts" "out = acc @ ts"
        by blast
      then obtain t ts' where c: "ts = t # ts'" "span_of_match n fz m t"
        "list_all2 (span_of_match n fz) ms ts'"
        by (auto simp: list_all2_Cons1)
      from c(2) have "t = ?t" by (simp add: m one)
      with ts(2) c have "list_all2 (span_of_match n fz) ms ts' \<and> out = (acc @ [?t]) @ ts'"
        by simp
      then show "make_spans n fz (m # ms) acc = Inr out"
        unfolding step Cons.IH by blast
    qed
  qed
qed


subsection \<open>What \<^verbatim>\<open>process\<close> returns\<close>

lemma set_iter_distinct: "distinct (set_iter sl xs) \<and> set (set_iter sl xs) = set xs"
  by (simp add: set_iter_def)

lemma find_matches_Inr:
  "find_matches n self d = Inr (ms, rs) \<longleftrightarrow>
     (\<exists>scs mss rss. visited n self d = Inr scs \<and> scanned n self d scs mss rss \<and>
        ms = concat mss \<and> rs = concat rss)"
proof (cases "on_ents_only self")
  case True
  show ?thesis
  proof (cases "sents_of n d (ents d)")
    case (Inl e)
    with True show ?thesis by (simp add: find_matches_def visited_def)
  next
    case (Inr sl)
    with True show ?thesis
      by (simp add: find_matches_def visited_def scan_sents_Inr scanned_def list_all2_map1)
  qed
next
  case False
  show ?thesis
  proof (cases "matcher_call n (matcher self) d WholeDoc")
    case (Inl e)
    with False show ?thesis
      by (simp add: find_matches_def visited_def scanned_def list_all2_Cons1)
  next
    case m: (Inr x)
    show ?thesis
    proof (cases "regex_matcher_call n (regex_matcher self) d WholeDoc")
      case (Inl e)
      with False m show ?thesis
        by (simp add: find_matches_def visited_def scanned_def list_all2_Cons1)
    next
      case (Inr y)
      with False m show ?thesis
        by (auto simp: find_matches_def visited_def scanned_def list_all2_Cons1)
    qed
  qed
qed

lemma process_Inr:
  "process n self d = Inr out \<longleftrightarrow>
     (\<exists>ms rs ts. find_matches n self d = Inr (ms, rs) \<and>
        list_all2 (span_of_match n (fuzzy self)) ms ts \<and>
        out = (if filter_matches self then filter_spans (ts @ rs) else ts @ rs))"
proof (cases "find_matches n self d")
  case (Inl e)
  then show ?thesis by (simp add: process_def)
next
  case (Inr p)
  obtain ms rs where p: "p = (ms, rs)" by (cases p)
  show ?thesis
  proof (cases "make_spans n (fuzzy self) ms []")
    case (Inl e)
    then have "\<not> (\<exists>ts. list_all2 (span_of_match n (fuzzy self)) ms ts)"
      using make_spans_Inr [of n "fuzzy self" ms "[]"] by auto
    with Inl Inr show ?thesis by (simp add: process_def p)
  next
    case mk: (Inr ts)
    then have "list_all2 (span_of_match n (fuzzy self)) ms ts' \<longleftrightarrow> ts' = ts" for ts'
      using make_spans_Inr [of n "fuzzy self" ms "[]" ts'] by auto
    with mk Inr show ?thesis by (auto simp: process_def p Let_def)
  qed
qed

subsection \<open>Without the filter\<close>

text \<open>
  Claim C5, as amended. With \<^verbatim>\<open>filter_matches\<close> off, \<^verbatim>\<open>process\<close> returns a list
  exactly when both engines return on every scope and every match becomes a span, and
  the list is then the spans of the exact or fuzzy matches, in the order the engine
  reports them, scope after scope in the order in which \<^verbatim>\<open>process\<close> scans the scopes
  (the whole document, or the distinct sentences of the entities in the order in which
  their set is iterated), followed by the spans of the regex engine in the same order.
  No further step changes the list.
\<close>

theorem unfiltered_process_is_concatenation:
  assumes "\<not> filter_matches self"
  shows "process n self d = Inr out \<longleftrightarrow>
     (\<exists>scs mss rss ts. visited n self d = Inr scs \<and> scanned n self d scs mss rss \<and>
        list_all2 (span_of_match n (fuzzy self)) (concat mss) ts \<and>
        out = ts @ concat rss)"
  using assms by (simp add: process_Inr find_matches_Inr) blast

text \<open>
  The two sentences of the document are scanned second sentence first; the spans of
  the term engine precede those of the regex engine.
\<close>

theorem unfiltered_process_is_concatenation_witness:
  "process toy_nlp (toy_matcher False True) toy_doc =
     Inr [\<lparr>span_start = 3, span_end = 5, span_label = Name ''drug''\<rparr>,
          \<lparr>span_start = 0, span_end = 2, span_label = Name ''drug''\<rparr>,
          \<lparr>span_start = 4, span_end = 6, span_label = Name ''dose''\<rparr>,
          \<lparr>span_start = 1, span_end = 3, span_label = Name ''dose''\<rparr>] \<and>
   (\<exists>scs mss rss ts.
      visited toy_nlp (toy_matcher False True) toy_doc = Inr scs \<and>
      scanned toy_nlp (toy_matcher False True) toy_doc scs mss rss \<and>
      list_all2 (span_of_match toy_nlp (fuzzy (toy_matcher False True))) (concat mss) ts \<and>
      [\<lparr>span_start = 3, span_end = 5, span_label = Name ''drug''\<rparr>,
       \<lparr>span_start = 0, span_end = 2, span_label = Name ''drug''\<rparr>,
       \<lparr>span_start = 4, span_end = 6, span_label = Name ''dose''\<rparr>,
       \<lparr>span_start = 1, span_end = 3, span_label = Name ''dose''\<rparr>] = ts @ concat rss)"
proof -
  have f: "\<not> filter_matches (toy_matcher False True)"
    by (simp add: toy_matcher_def)
  have run: "process toy_nlp (toy_matcher False True) toy_doc =
     Inr [\<lparr>span_start = 3, span_end = 5, span_label = Name ''drug''\<rparr>,
          \<lparr>span_start = 0, span_end = 2, span_label = Name ''drug''\<rparr>,
          \<lparr>span_start = 4, span_end = 6, span_label = Name ''dose''\<rparr>,
          \<lparr>span_start = 1, span_end = 3, span_label = Name ''dose''\<rparr>]"
    by code_simp
  show ?thesis
    using unfiltered_process_is_concatenation [OF f, of toy_nlp toy_doc] run by blast
qed

text \<open>
  Claim C5 as stated fails for the order of the scopes: the entities of the document
  reach the sentence \<open>[0, 3)\<close> before the sentence \<open>[3, 6)\<close>, and scanned in that
  order the sentences give the spans of \<open>[0, 3)\<close> first; the list that
  \<^verbatim>\<open>process\<close> returns has the spans of \<open>[3, 6)\<close> first.
\<close>

theorem unfiltered_order_counterexample:
  "sents_of toy_nlp toy_doc (ents toy_doc) =
     Inr [\<lparr>span_start = 0, span_end = 3, span_label = Hash 0\<rparr>,
          \<lparr>span_start = 0, span_end = 3, span_label = Hash 0\<rparr>,
          \<lparr>span_start = 3, span_end = 6, span_label = Hash 0\<rparr>] \<and>
   scan_sents toy_nlp (matcher (toy_matcher False True)) (regex_matcher (toy_matcher False True))
       toy_doc
       [\<lparr>span_start = 0, span_end = 3, span_label = Hash 0\<rparr>,
        \<lparr>span_start = 3, span_end = 6, span_label = Hash 0\<rparr>] [] [] =
     Inr ([(Hash 1, 0, 2), (Hash 1, 3, 5)],
          [\<lparr>span_start = 1, span_end = 3, span_label = Name ''dose''\<rparr>,
           \<lparr>span_start = 4, span_end = 6, span_label = Name ''dose''\<rparr>]) \<and>
   make_spans toy_nlp (fuzzy (toy_matcher False True)) [(Hash 1, 0, 2), (Hash 1, 3, 5)] [] =
     Inr [\<lparr>span_start = 0, span_end = 2, span_label = Name ''drug''\<rparr>,
          \<lparr>span_start = 3, span_end = 5, span_label = Name ''drug''\<rparr>] \<and>
   process toy_nlp (toy_matcher False True) toy_doc \<noteq>
     Inr ([\<lparr>span_start = 0, span_end = 2, span_label = Name ''drug''\<rparr>,
           \<lparr>span_start = 3, span_end = 5, span_label = Name ''drug''\<rparr>] @
          [\<lparr>span_start = 1, span_end = 3, span_label = Name ''dose''\<rparr>,
           \<lparr>span_start = 4, span_end = 6, span_label = Name ''dose''\<rparr>]) \<and>
   process toy_nlp (toy_matcher False True) toy_doc =
     Inr [\<lparr>span_start = 3, span_end = 5, span_label = Name ''drug''\<rparr>,
          \<lparr>span_start = 0, span_end = 2, span_label = Name ''drug''\<rparr>,
          \<lparr>span_start = 4, span_end = 6, span_label = Name ''dose''\<rparr>,
          \<lparr>span_start = 1, span_end = 3, span_label = Name ''dose''\<rparr>]"
  by code_simp

subsection \<open>The sentences of the entities\<close>

text \<open>
  Claim C3, as amended. With \<^verbatim>\<open>on_ents_only\<close> on, the matching returns exactly when
  every entity has a sentence and both engines return on each scanned sentence. The
  scanned sentences are the distinct sentences of the entities, each of them scanned
  once however many entities it holds, and the matches are accumulated sentence after
  sentence in the order in which the set of these sentences is iterated.
\<close>

theorem entity_scope_visits_each_sentence_once:
  assumes "on_ents_only self"
  shows "find_matches n self d = Inr (ms, rs) \<longleftrightarrow>
     (\<exists>sl vis mss rss.
        list_all2 (\<lambda>e s. sent n d e = Inr s) (ents d) sl \<and>
        vis = set_iter (slot n) sl \<and> distinct vis \<and> set vis = set sl \<and>
        scanned n self d (map Sentence vis) mss rss \<and>
        ms = concat mss \<and> rs = concat rss)"
proof -
  have "visited n self d = Inr scs \<longleftrightarrow>
      (\<exists>sl. list_all2 (\<lambda>e s. sent n d e = Inr s) (ents d) sl \<and>
         scs = map Sentence (set_iter (slot n) sl))" for scs
    using assms
    by (cases "sents_of n d (ents d)")
       (auto simp: visited_def sents_of_Inr [symmetric])
  then show ?thesis
    unfolding find_matches_Inr using set_iter_distinct [of "slot n"] by auto
qed

text \<open>
  Three entities in two sentences: two scans, the second sentence first.
\<close>

theorem entity_scope_visits_each_sentence_once_witness:
  "find_matches toy_nlp (toy_matcher False True) toy_doc =
     Inr ([(Hash 1, 3, 5), (Hash 1, 0, 2)],
          [\<lparr>span_start = 4, span_end = 6, span_label = Name ''dose''\<rparr>,
           \<lparr>span_start = 1, span_end = 3, span_label = Name ''dose''\<rparr>]) \<and>
   (\<exists>sl vis mss rss.
      list_all2 (\<lambda>e s. sent toy_nlp toy_doc e = Inr s) (ents toy_doc) sl \<and>
      vis = set_iter (slot toy_nlp) sl \<and> distinct vis \<and> set vis = set sl \<and>
      scanned toy_nlp (toy_matcher False True) toy_doc (map Sentence vis) mss rss \<and>
      [(Hash 1, 3, 5), (Hash 1, 0, 2)] = concat mss \<and>
      [\<lparr>span_start = 4, span_end = 6, span_label = Name ''dose''\<rparr>,
       \<lparr>span_start = 1, span_end = 3, span_label = Name ''dose''\<rparr>] = concat rss)"
proof -
  have e: "on_ents_only (toy_matcher False True)"
    by (simp add: toy_matcher_def)
  have run: "find_matches toy_nlp (toy_matcher False True) toy_doc =
     Inr ([(Hash 1, 3, 5), (Hash 1, 0, 2)],
          [\<lparr>span_start = 4, span_end = 6, span_label = Name ''dose''\<rparr>,
           \<lparr>span_start = 1, span_end = 3, span_label = Name ''dose''\<rparr>])"
    by code_simp
  show ?thesis
    using entity_scope_visits_each_sentence_once [OF e, of toy_nlp toy_doc] run by blast
qed

text \<open>
  Claim C3 as stated fails in its last part: the order of the scans is the order of the
  set, not the order in which the entities reach the sentences. The entities of the
  document give the sentences \<open>[0, 3)\<close>, \<open>[0, 3)\<close>, \<open>[3, 6)\<close>; the matches are
  those of \<open>[3, 6)\<close> followed by those of \<open>[0, 3)\<close>, while a scan in the order of
  the entities accumulates them the other way round.
\<close>

theorem discovery_order_counterexample:
  "sents_of toy_nlp toy_doc (ents toy_doc) =
     Inr [\<lparr>span_start = 0, span_end = 3, span_label = Hash 0\<rparr>,
          \<lparr>span_start = 0, span_end = 3, span_label = Hash 0\<rparr>,
          \<lparr>span_start = 3, span_end = 6, span_label = Hash 0\<rparr>] \<and>
   find_matches toy_nlp (toy_matcher False True) toy_doc =
     Inr ([(Hash 1, 3, 5), (Hash 1, 0, 2)],
          [\<lparr>span_start = 4, span_end = 6, span_label = Name ''dose''\<rparr>,
           \<lparr>span_start = 1, span_end = 3, span_label = Name ''dose''\<rparr>]) \<and>
   scan_sents toy_nlp (matcher (toy_matcher False True)) (regex_matcher (toy_matcher False True))
       toy_doc
       [\<lparr>span_start = 0, span_end = 3, span_label = Hash 0\<rparr>,
        \<lparr>span_start = 3, span_end = 6, span_label = Hash 0\<rparr>] [] [] =
     Inr ([(Hash 1, 0, 2), (Hash 1, 3, 5)],
          [\<lparr>span_start = 1, span_end = 3, span_label = Name ''dose''\<rparr>,
           \<lparr>span_start = 4, span_end = 6, span_label = Name ''dose''\<rparr>])"
  by code_simp

subsection \<open>A document without entities\<close>

text \<open>
  Claim C6. With \<^verbatim>\<open>on_ents_only\<close> on, \<^verbatim>\<open>process\<close> returns the empty list for every
  document whose entity list is empty, whatever the engines would find in it.
\<close>

theorem no_entities_no_spans:
  assumes "on_ents_only self" and "ents d = []"
  shows "process n self d = Inr []"
  using assms
  by (simp add: process_def find_matches_def set_iter_def filter_spans_def)

text \<open>
  The document without its entities: nothing in entity-scoped mode, although the term
  engine has a match on the whole document.
\<close>

theorem no_entities_no_spans_witness:
  "process toy_nlp (toy_matcher True True) (toy_doc\<lparr>ents := []\<rparr>) = Inr [] \<and>
   process toy_nlp (toy_matcher True False) (toy_doc\<lparr>ents := []\<rparr>) =
     Inr [\<lparr>span_start = 0, span_end = 2, span_label = Name ''drug''\<rparr>]"
proof -
  have e: "on_ents_only (toy_matcher True True)"
    by (simp add: toy_matcher_def)
  have d: "ents (toy_doc\<lparr>ents := []\<rparr>) = []"
    by simp
  have whole: "process toy_nlp (toy_matcher True False) (toy_doc\<lparr>ents := []\<rparr>) =
     Inr [\<lparr>span_start = 0, span_end = 2, span_label = Name ''drug''\<rparr>]"
    by code_simp
  show ?thesis
    using no_entities_no_spans [OF e d, of toy_nlp] whole by simp
qed

section \<open>Properties of the overlap filter\<close>

subsection \<open>The accepted spans share no token\<close>

lemma overlaps_iff:
  "overlaps a b \<longleftrightarrow>
     (\<exists>t. span_start a \<le> t \<and> t < span_end a \<and> span_start b \<le> t \<and> t < span_end b)"
proof
  assume "overlaps a b"
  then have "span_start a \<le> max (span_start a) (span_start b) \<and>
      max (span_start a) (span_start b) < span_end a \<and>
      span_start b \<le> max (span_start a) (span_start b) \<and>
      max (span_start a) (span_start b) < span_end b"
    by (simp add: overlaps_def)
  then show "\<exists>t. span_start a \<le> t \<and> t < span_end a \<and> span_start b \<le> t \<and> t < span_end b"
    by blast
next
  assume "\<exists>t. span_start a \<le> t \<and> t < span_end a \<and> span_start b \<le> t \<and> t < span_end b"
  then show "overlaps a b"
    by (auto simp: overlaps_def)
qed

lemma overlaps_sym: "overlaps a b \<longleftrightarrow> overlaps b a"
  by (simp add: overlaps_def max.commute min.commute)

lemma apart_insort_key:
  "sorted_wrt apart (insort_key f x xs) \<longleftrightarrow> (\<forall>y\<in>set xs. apart x y) \<and> sorted_wrt apart xs"
  by (induction xs) (auto simp: overlaps_sym set_insort_key)

lemma apart_sort_key:
  "sorted_wrt apart (sort_key f xs) \<longleftrightarrow> sorted_wrt apart xs"
  by (induction xs) (simp_all add: apart_insort_key)

lemma apart_greedy_accept:
  "sorted_wrt apart acc \<Longrightarrow> sorted_wrt apart (greedy_accept acc ss)"
proof (induction ss arbitrary: acc)
  case Nil
  then show ?case by simp
next
  case (Cons s ss)
  show ?case
  proof (cases "list_ex (\<lambda>a. overlaps a s) acc")
    case True
    with Cons show ?thesis by simp
  next
    case False
    then have "sorted_wrt apart (acc @ [s])"
      using Cons.prems by (simp add: sorted_wrt_append list_ex_iff)
    with False show ?thesis by (simp add: Cons.IH)
  qed
qed

lemma apart_filter_spans: "sorted_wrt apart (filter_spans spans)"
  by (simp add: filter_spans_def apart_sort_key apart_greedy_accept)

lemma apart_nth:
  assumes "sorted_wrt apart xs" and "i < length xs" and "j < length xs" and "i \<noteq> j"
  shows "apart (xs ! i) (xs ! j)"
proof (cases "i < j")
  case True
  with assms show ?thesis by (simp add: sorted_wrt_iff_nth_less)
next
  case False
  with assms have "j < i" by simp
  with assms have "apart (xs ! j) (xs ! i)" by (simp add: sorted_wrt_iff_nth_less)
  then show ?thesis by (simp add: overlaps_sym)
qed

text \<open>
  Claim C4. With \<^verbatim>\<open>filter_matches\<close> on, no token index lies in the token ranges of
  two spans at different positions of the list that \<^verbatim>\<open>process\<close> returns.
\<close>

theorem filtered_process_is_nonoverlapping:
  assumes "filter_matches self" and "process n self d = Inr out"
    and "i < length out" and "j < length out" and "i \<noteq> j"
  shows "\<not> (\<exists>t. span_start (out ! i) \<le> t \<and> t < span_end (out ! i) \<and>
               span_start (out ! j) \<le> t \<and> t < span_end (out ! j))"
proof -
  from assms(1,2) obtain cands where "out = filter_spans cands"
    by (auto simp: process_Inr)
  then have "sorted_wrt apart out"
    by (simp add: apart_filter_spans)
  from apart_nth [OF this assms(3-5)] show ?thesis
    by (simp add: overlaps_iff)
qed

text \<open>
  The four candidate spans of the document overlap in pairs; two are returned.
\<close>

theorem filtered_process_is_nonoverlapping_witness:
  "process toy_nlp (toy_matcher True True) toy_doc =
     Inr [\<lparr>span_start = 0, span_end = 2, span_label = Name ''drug''\<rparr>,
          \<lparr>span_start = 3, span_end = 5, span_label = Name ''drug''\<rparr>] \<and>
   \<not> (\<exists>t::int. 0 \<le> t \<and> t < 2 \<and> 3 \<le> t \<and> t < 5)"
proof -
  have f: "filter_matches (toy_matcher True True)"
    by (simp add: toy_matcher_def)
  have run: "process toy_nlp (toy_matcher True True) toy_doc =
     Inr [\<lparr>span_start = 0, span_end = 2, span_label = Name ''drug''\<rparr>,
          \<lparr>span_start = 3, span_end = 5, span_label = Name ''drug''\<rparr>]"
    by code_simp
  show ?thesis
    using filtered_process_is_nonoverlapping [OF f run, of 0 1] run by simp
qed

subsection \<open>Spans of equal length\<close>

lemma takeWhile_filter_commute:
  "Q a \<Longrightarrow> takeWhile (\<lambda>y. y \<noteq> a) (filter Q xs) = filter Q (takeWhile (\<lambda>y. y \<noteq> a) xs)"
  by (induction xs) auto

lemma before_in_sorted:
  assumes "sorted (map f ys)" and "y \<in> set (takeWhile (\<lambda>y. y \<noteq> a) ys)" and "a \<in> set ys"
  shows "f y \<le> f a"
proof -
  let ?P = "\<lambda>y. y \<noteq> a"
  have "a \<notin> set (takeWhile ?P ys)"
    by (auto dest: set_takeWhileD)
  with assms(3) have a: "a \<in> set (dropWhile ?P ys)"
    by (metis Un_iff set_append takeWhile_dropWhile_id)
  have "sorted (map f (takeWhile ?P ys @ dropWhile ?P ys))"
    using assms(1) by simp
  then show ?thesis
    using assms(2) a unfolding map_append sorted_append by auto
qed

lemma before_in_sort_key:
  assumes "y \<in> set (takeWhile (\<lambda>y. y \<noteq> a) (sort_key f xs))" and "a \<in> set xs"
  shows "f y < f a \<or> (f y = f a \<and> y \<in> set (takeWhile (\<lambda>y. y \<noteq> a) xs))"
proof -
  have le: "f y \<le> f a"
    using before_in_sorted [of f "sort_key f xs" y a] assms by simp
  show ?thesis
  proof (cases "f y = f a")
    case True
    let ?Q = "\<lambda>z. f z = f a"
    from assms(1) True have "y \<in> set (filter ?Q (takeWhile (\<lambda>y. y \<noteq> a) (sort_key f xs)))"
      by simp
    then have "y \<in> set (takeWhile (\<lambda>y. y \<noteq> a) (filter ?Q (sort_key f xs)))"
      by (simp add: takeWhile_filter_commute [of ?Q])
    then have "y \<in> set (takeWhile (\<lambda>y. y \<noteq> a) (filter ?Q xs))"
      by (simp only: sort_key_stable)
    then have "y \<in> set (filter ?Q (takeWhile (\<lambda>y. y \<noteq> a) xs))"
      by (simp add: takeWhile_filter_commute [of ?Q])
    with True show ?thesis by simp
  next
    case False
    with le show ?thesis by simp
  qed
qed

lemma greedy_accept_mono: "set acc \<subseteq> set (greedy_accept acc ss)"
proof (induction ss arbitrary: acc)
  case Nil
  then show ?case by simp
next
  case (Cons s ss)
  have "set acc \<subseteq> set (acc @ [s])" by auto
  also have "\<dots> \<subseteq> set (greedy_accept (acc @ [s]) ss)" by (rule Cons.IH)
  finally show ?case using Cons.IH [of acc] by simp
qed

lemma greedy_accept_keeps:
  assumes "a \<in> set ss" and "\<forall>c\<in>set acc. apart c a"
    and "\<forall>c\<in>set (takeWhile (\<lambda>y. y \<noteq> a) ss). apart c a"
  shows "a \<in> set (greedy_accept acc ss)"
  using assms
proof (induction ss arbitrary: acc)
  case Nil
  then show ?case by simp
next
  case (Cons s ss)
  show ?case
  proof (cases "s = a")
    case True
    with Cons.prems(2) have "\<not> list_ex (\<lambda>c. overlaps c s) acc"
      by (simp add: list_ex_iff)
    then have "greedy_accept acc (s # ss) = greedy_accept (acc @ [a]) ss"
      using True by simp
    then show ?thesis
      using greedy_accept_mono [of "acc @ [a]" ss] by auto
  next
    case False
    with Cons.prems have in_rest: "a \<in> set ss" and s: "apart s a"
      and rest: "\<forall>c\<in>set (takeWhile (\<lambda>y. y \<noteq> a) ss). apart c a"
      by auto
    from s Cons.prems(2) have acc': "\<forall>c\<in>set (acc @ [s]). apart c a" by auto
    show ?thesis
      using Cons.IH [OF in_rest Cons.prems(2) rest] Cons.IH [OF in_rest acc' rest]
      by simp
  qed
qed

text \<open>
  Claim C2, as amended. Let \<open>a\<close> and \<open>b\<close> be different candidates of equal length
  that overlap, \<open>a\<close> before \<open>b\<close> in the list of candidates. If \<open>a\<close> overlaps no
  longer candidate and no candidate of its own length that precedes it in the list,
  the filter accepts \<open>a\<close> and rejects \<open>b\<close>: among spans of equal length the
  filter decides in the order of the list.
\<close>

theorem filter_spans_prefers_earlier:
  assumes "span_len a = span_len b" and "overlaps a b" and "a \<noteq> b"
    and "\<forall>c\<in>set (xs @ a # ys @ b # zs). span_len a < span_len c \<longrightarrow> \<not> overlaps c a"
    and "\<forall>c\<in>set xs. span_len c = span_len a \<longrightarrow> \<not> overlaps c a"
  shows "a \<in> set (filter_spans (xs @ a # ys @ b # zs)) \<and>
         b \<notin> set (filter_spans (xs @ a # ys @ b # zs))"
proof -
  let ?cands = "xs @ a # ys @ b # zs"
  let ?f = "\<lambda>s. - span_len s"
  let ?sorted = "sort_key ?f ?cands"
  have a_in: "a \<in> set ?cands" by simp
  have pre: "set (takeWhile (\<lambda>y. y \<noteq> a) ?cands) \<subseteq> set xs"
    by (auto simp: takeWhile_append dest: set_takeWhileD)
  have before: "apart c a" if "c \<in> set (takeWhile (\<lambda>y. y \<noteq> a) ?sorted)" for c
  proof -
    from that have c_in: "c \<in> set ?cands"
      by (metis set_takeWhileD set_sort)
    from before_in_sort_key [OF that a_in]
    consider "span_len a < span_len c"
      | "span_len c = span_len a" "c \<in> set (takeWhile (\<lambda>y. y \<noteq> a) ?cands)"
      by auto
    then show ?thesis
    proof cases
      case 1
      with assms(4) c_in show ?thesis by blast
    next
      case 2
      with pre assms(5) show ?thesis by blast
    qed
  qed
  have "a \<in> set (greedy_accept [] ?sorted)"
    by (rule greedy_accept_keeps) (use before in auto)
  then have a_out: "a \<in> set (filter_spans ?cands)"
    by (simp add: filter_spans_def)
  have "b \<notin> set (filter_spans ?cands)"
  proof
    assume "b \<in> set (filter_spans ?cands)"
    with a_out obtain i j where ij: "i < length (filter_spans ?cands)"
      "j < length (filter_spans ?cands)" "filter_spans ?cands ! i = a"
      "filter_spans ?cands ! j = b"
      by (auto simp: in_set_conv_nth)
    with assms(3) have "i \<noteq> j" by auto
    from apart_nth [OF apart_filter_spans ij(1,2) this] ij(3,4) assms(2)
    show False by simp
  qed
  with a_out show ?thesis by blast
qed

text \<open>
  Two candidates of length two, with a shorter candidate before and after them.
\<close>

theorem filter_spans_prefers_earlier_witness:
  "span_len \<lparr>span_start = 0, span_end = 2, span_label = Name ''drug''\<rparr> =
     span_len \<lparr>span_start = 1, span_end = 3, span_label = Name ''dose''\<rparr> \<and>
   overlaps \<lparr>span_start = 0, span_end = 2, span_label = Name ''drug''\<rparr>
     \<lparr>span_start = 1, span_end = 3, span_label = Name ''dose''\<rparr> \<and>
   \<lparr>span_start = 0, span_end = 2, span_label = Name ''drug''\<rparr> \<in>
     set (filter_spans
       [\<lparr>span_start = 6, span_end = 7, span_label = Name ''date''\<rparr>,
        \<lparr>span_start = 0, span_end = 2, span_label = Name ''drug''\<rparr>,
        \<lparr>span_start = 1, span_end = 3, span_label = Name ''dose''\<rparr>,
        \<lparr>span_start = 0, span_end = 1, span_label = Name ''unit''\<rparr>]) \<and>
   \<lparr>span_start = 1, span_end = 3, span_label = Name ''dose''\<rparr> \<notin>
     set (filter_spans
       [\<lparr>span_start = 6, span_end = 7, span_label = Name ''date''\<rparr>,
        \<lparr>span_start = 0, span_end = 2, span_label = Name ''drug''\<rparr>,
        \<lparr>span_start = 1, span_end = 3, span_label = Name ''dose''\<rparr>,
        \<lparr>span_start = 0, span_end = 1, span_label = Name ''unit''\<rparr>])"
proof -
  let ?a = "\<lparr>span_start = 0, span_end = 2, span_label = Name ''drug''\<rparr>"
  let ?b = "\<lparr>span_start = 1, span_end = 3, span_label = Name ''dose''\<rparr>"
  let ?xs = "[\<lparr>span_start = 6, span_end = 7, span_label = Name ''date''\<rparr>]"
  let ?zs = "[\<lparr>span_start = 0, span_end = 1, span_label = Name ''unit''\<rparr>]"
  have len: "span_len ?a = span_len ?b" by (simp add: span_len_def)
  have ov: "overlaps ?a ?b" by (simp add: overlaps_def)
  have ne: "?a \<noteq> ?b" by simp
  have longer: "\<forall>c\<in>set (?xs @ ?a # [] @ ?b # ?zs). span_len ?a < span_len c \<longrightarrow> \<not> overlaps c ?a"
    by (simp add: span_len_def)
  have earlier: "\<forall>c\<in>set ?xs. span_len c = span_len ?a \<longrightarrow> \<not> overlaps c ?a"
    by (simp add: span_len_def)
  show ?thesis
    using filter_spans_prefers_earlier [OF len ov ne longer earlier] len ov by simp
qed

text \<open>
  Claim C2 as stated fails: of the overlapping candidates \<open>[1, 3)\<close> and \<open>[2, 4)\<close>
  of equal length the earlier is rejected and the later accepted, because the earlier
  overlaps \<open>[0, 2)\<close>, which was accepted before it.
\<close>

theorem later_span_kept_counterexample:
  "span_len \<lparr>span_start = 1, span_end = 3, span_label = Name ''a''\<rparr> =
     span_len \<lparr>span_start = 2, span_end = 4, span_label = Name ''b''\<rparr> \<and>
   overlaps \<lparr>span_start = 1, span_end = 3, span_label = Name ''a''\<rparr>
     \<lparr>span_start = 2, span_end = 4, span_label = Name ''b''\<rparr> \<and>
   filter_spans
     [\<lparr>span_start = 0, span_end = 2, span_label = Name ''x''\<rparr>,
      \<lparr>span_start = 1, span_end = 3, span_label = Name ''a''\<rparr>,
      \<lparr>span_start = 2, span_end = 4, span_label = Name ''b''\<rparr>] =
     [\<lparr>span_start = 0, span_end = 2, span_label = Name ''x''\<rparr>,
      \<lparr>span_start = 2, span_end = 4, span_label = Name ''b''\<rparr>]"
  by code_simp

section \<open>Properties of the call of the component\<close>

text \<open>The accepted spans come back in the order of their start indices.\<close>

lemma filter_spans_by_start: "sort_key span_start (filter_spans spans) = filter_spans spans"
proof (rule sort_key_id_if_sorted)
  show "sorted (map span_start (filter_spans spans))"
    unfolding filter_spans_def by (rule sorted_sort_key)
qed

text \<open>
  Claim C9, as amended. When \<^verbatim>\<open>process\<close> raises, \<^verbatim>\<open>__call__\<close> propagates the
  exception and the document is as it was: the assignment is not reached. When
  \<^verbatim>\<open>process\<close> returns, \<^verbatim>\<open>__call__\<close> assigns exactly the returned spans to
  \<^verbatim>\<open>doc.ents\<close> and does nothing else, so the outcome is that of the setter. With
  \<^verbatim>\<open>filter_matches\<close> on and a setter that accepts spans sharing no token and stores them
  by start index, the entity list of the document after the call is exactly the list
  that \<^verbatim>\<open>process\<close> returned, nothing of the previous list being kept.
\<close>

theorem call_overwrites_entities:
  "(\<forall>e. process n self d = Inl e \<longrightarrow> call n self d = (d, Some e)) \<and>
   (\<forall>spans. process n self d = Inr spans \<longrightarrow> call n self d = set_ents n d spans) \<and>
   (\<forall>spans.
      filter_matches self \<and> process n self d = Inr spans \<and>
      (\<forall>xs. sorted_wrt apart xs \<longrightarrow>
         set_ents n d xs = (d\<lparr>ents := sort_key span_start xs\<rparr>, None)) \<longrightarrow>
      call n self d = (d\<lparr>ents := spans\<rparr>, None) \<and> ents (fst (call n self d)) = spans)"
proof -
  have "call n self d = (d\<lparr>ents := spans\<rparr>, None) \<and> ents (fst (call n self d)) = spans"
    if f: "filter_matches self" and p: "process n self d = Inr spans"
      and s: "\<forall>xs. sorted_wrt apart xs \<longrightarrow>
         set_ents n d xs = (d\<lparr>ents := sort_key span_start xs\<rparr>, None)"
    for spans
  proof -
    from f p obtain cands where c: "spans = filter_spans cands"
      by (auto simp: process_Inr)
    have "sorted_wrt apart spans"
      unfolding c by (rule apart_filter_spans)
    with s have "set_ents n d spans = (d\<lparr>ents := sort_key span_start spans\<rparr>, None)"
      by blast
    also have "sort_key span_start spans = spans"
      unfolding c by (rule filter_spans_by_start)
    finally show ?thesis
      using p by (simp add: call_def)
  qed
  then show ?thesis
    by (simp add: call_def)
qed

text \<open>
  A call with the filter on, and a call in which the lookup of the label raises.
\<close>

theorem call_overwrites_entities_witness:
  "call toy_nlp (toy_matcher True True) toy_doc =
     (toy_doc\<lparr>ents := [\<lparr>span_start = 0, span_end = 2, span_label = Name ''drug''\<rparr>,
                        \<lparr>span_start = 3, span_end = 5, span_label = Name ''drug''\<rparr>]\<rparr>, None) \<and>
   call (toy_nlp\<lparr>strings := (\<lambda>l. Inl (Raised ''KeyError''))\<rparr>) (toy_matcher True True) toy_doc =
     (toy_doc, Some (Raised ''KeyError''))"
proof -
  have f: "filter_matches (toy_matcher True True)"
    by (simp add: toy_matcher_def)
  have ok: "process toy_nlp (toy_matcher True True) toy_doc =
     Inr [\<lparr>span_start = 0, span_end = 2, span_label = Name ''drug''\<rparr>,
          \<lparr>span_start = 3, span_end = 5, span_label = Name ''drug''\<rparr>]"
    by code_simp
  have s: "\<forall>xs. sorted_wrt apart xs \<longrightarrow>
      set_ents toy_nlp toy_doc xs = (toy_doc\<lparr>ents := sort_key span_start xs\<rparr>, None)"
    by (simp add: toy_nlp_def)
  have ko: "process (toy_nlp\<lparr>strings := (\<lambda>l. Inl (Raised ''KeyError''))\<rparr>)
      (toy_matcher True True) toy_doc = Inl (Raised ''KeyError'')"
    by code_simp
  show ?thesis
    using call_overwrites_entities [of toy_nlp "toy_matcher True True" toy_doc] f ok s
      call_overwrites_entities
        [of "toy_nlp\<lparr>strings := (\<lambda>l. Inl (Raised ''KeyError''))\<rparr>" "toy_matcher True True" toy_doc]
      ko
    by blast
qed

text \<open>
  Claim C9 as stated fails: with the filter off \<^verbatim>\<open>process\<close> returns four spans that
  overlap in pairs, the setter refuses them, and the document keeps its three entities.
\<close>

theorem refused_entities_counterexample:
  "process toy_nlp (toy_matcher False True) toy_doc =
     Inr [\<lparr>span_start = 3, span_end = 5, span_label = Name ''drug''\<rparr>,
          \<lparr>span_start = 0, span_end = 2, span_label = Name ''drug''\<rparr>,
          \<lparr>span_start = 4, span_end = 6, span_label = Name ''dose''\<rparr>,
          \<lparr>span_start = 1, span_end = 3, span_label = Name ''dose''\<rparr>] \<and>
   call toy_nlp (toy_matcher False True) toy_doc = (toy_doc, Some (Raised ''ValueError'')) \<and>
   ents (fst (call toy_nlp (toy_matcher False True) toy_doc)) =
     [\<lparr>span_start = 1, span_end = 2, span_label = Name ''verb''\<rparr>,
      \<lparr>span_start = 2, span_end = 3, span_label = Name ''drug''\<rparr>,
      \<lparr>span_start = 5, span_end = 6, span_label = Name ''dose''\<rparr>]"
  by code_simp

end
